theory Spec2Isabelle
  imports Main "HOL-Library.Product_Lexorder"
begin

section \<open>Data model\<close>

text \<open>
  A cell is a pair (row, column) of Python integers.  A \<open>Sentence\<close> object holds a set
  of cells and an integer count; Python sets are finite, so \<open>len(self.cells)\<close> is
  \<open>card\<close> on the finite sets the program builds.  Equality of sentences
  (\<open>__eq__\<close>, and \<open>!=\<close> and \<open>in\<close> through it) is equality of both fields, which is
  equality of the record.
\<close>

type_synonym cell = "int \<times> int"

record sentence =
  cells :: "cell set"
  count :: int

record minesweeper_ai =
  height :: int
  width :: int
  moves_made :: "cell set"
  mines :: "cell set"
  safes :: "cell set"
  knowledge :: "sentence list"

text \<open>
  A \<open>for\<close> loop over a Python set visits every element once, in an order the language
  does not fix.  The model visits them in increasing (lexicographic) order; the lemmas
  \<open>fold_ai_mark_safe\<close> and \<open>fold_ai_mark_mine\<close> below show that the loops of this
  program do not depend on that choice.
\<close>

definition set_iter :: "cell set \<Rightarrow> cell list" where
  "set_iter S = sorted_list_of_set S"

section \<open>Class Sentence\<close>

definition known_mines :: "sentence \<Rightarrow> cell set" where
  "known_mines s = (if count s = int (card (cells s)) then cells s else {})"

definition known_safes :: "sentence \<Rightarrow> cell set" where
  "known_safes s = (if count s = 0 then cells s else {})"

definition sentence_mark_mine :: "cell \<Rightarrow> sentence \<Rightarrow> sentence" where
  "sentence_mark_mine c s =
     (if c \<in> cells s then s\<lparr>cells := cells s - {c}, count := count s - 1\<rparr> else s)"

definition sentence_mark_safe :: "cell \<Rightarrow> sentence \<Rightarrow> sentence" where
  "sentence_mark_safe c s =
     (if c \<in> cells s then s\<lparr>cells := cells s - {c}\<rparr> else s)"

section \<open>Class MinesweeperAI\<close>

definition init_ai :: "int \<Rightarrow> int \<Rightarrow> minesweeper_ai" where
  "init_ai h w =
     \<lparr>height = h, width = w, moves_made = {}, mines = {}, safes = {}, knowledge = []\<rparr>"

definition ai_mark_mine :: "cell \<Rightarrow> minesweeper_ai \<Rightarrow> minesweeper_ai" where
  "ai_mark_mine c st =
     st\<lparr>mines := insert c (mines st),
        knowledge := map (sentence_mark_mine c) (knowledge st)\<rparr>"

definition ai_mark_safe :: "cell \<Rightarrow> minesweeper_ai \<Rightarrow> minesweeper_ai" where
  "ai_mark_safe c st =
     st\<lparr>safes := insert c (safes st),
        knowledge := map (sentence_mark_safe c) (knowledge st)\<rparr>"

definition get_neighbors :: "minesweeper_ai \<Rightarrow> cell \<Rightarrow> cell list" where
  "get_neighbors st c =
     (case c of (i, j) \<Rightarrow>
        [(x, y). x \<leftarrow> [i - 1..i + 1], y \<leftarrow> [j - 1..j + 1],
                 0 \<le> x \<and> x < height st \<and> 0 \<le> y \<and> y < width st \<and> (x, y) \<noteq> (i, j)])"

text \<open>The loop of \<open>add_knowledge\<close> over the neighbours (lines 83 to 89).\<close>

fun partition_neighbors ::
  "minesweeper_ai \<Rightarrow> cell list \<Rightarrow> cell set \<times> int \<Rightarrow> cell set \<times> int" where
  "partition_neighbors st [] acc = acc"
| "partition_neighbors st (nb # nbs) (unknown_neighbors, cnt) =
     (if nb \<in> safes st then partition_neighbors st nbs (unknown_neighbors, cnt)
      else if nb \<in> mines st then partition_neighbors st nbs (unknown_neighbors, cnt - 1)
      else partition_neighbors st nbs (insert nb unknown_neighbors, cnt))"

text \<open>
  Lines 79 to 92 of \<open>add_knowledge\<close>: everything before the call of
  \<open>update_knowledge\<close>.
\<close>

definition record_observation :: "cell \<Rightarrow> int \<Rightarrow> minesweeper_ai \<Rightarrow> minesweeper_ai" where
  "record_observation c n st =
     (let st1 = st\<lparr>moves_made := insert c (moves_made st)\<rparr>;
          st2 = ai_mark_safe c st1;
          neighbors = get_neighbors st2 c;
          (unknown_neighbors, cnt) = partition_neighbors st2 neighbors ({}, n);
          new_sentence = \<lparr>cells = unknown_neighbors, count = cnt\<rparr>
      in if cells new_sentence \<noteq> {}
         then st2\<lparr>knowledge := knowledge st2 @ [new_sentence]\<rparr>
         else st2)"

text \<open>
  The body of the first \<open>for\<close> loop of \<open>update_knowledge\<close> (lines 122 to 133) for the
  sentence at index \<open>i\<close>.  Both query results are computed (as copies) before either is
  used.  Marking a cell changes the sentences in place and never the length of the list.
\<close>

definition extract_sentence :: "nat \<Rightarrow> minesweeper_ai \<times> bool \<Rightarrow> minesweeper_ai \<times> bool" where
  "extract_sentence i x =
     (case x of (st, changed) \<Rightarrow>
        let s = knowledge st ! i;
            sfs = known_safes s;
            mns = known_mines s;
            (st1, changed1) =
               (if sfs \<noteq> {}
                then (fold ai_mark_safe (set_iter sfs) (st\<lparr>safes := safes st \<union> sfs\<rparr>), True)
                else (st, changed))
        in if mns \<noteq> {}
           then (fold ai_mark_mine (set_iter mns) (st1\<lparr>mines := mines st1 \<union> mns\<rparr>), True)
           else (st1, changed1))"

lemma length_knowledge_fold_safe:
  "length (knowledge (fold ai_mark_safe xs st)) = length (knowledge st)"
  by (induction xs arbitrary: st) (simp_all add: ai_mark_safe_def)

lemma length_knowledge_fold_mine:
  "length (knowledge (fold ai_mark_mine xs st)) = length (knowledge st)"
  by (induction xs arbitrary: st) (simp_all add: ai_mark_mine_def)

lemma length_knowledge_extract_sentence:
  "length (knowledge (fst (extract_sentence i x))) = length (knowledge (fst x))"
  by (cases x)
     (simp add: extract_sentence_def Let_def length_knowledge_fold_safe
        length_knowledge_fold_mine split: prod.splits)

function extract_loop :: "nat \<Rightarrow> minesweeper_ai \<times> bool \<Rightarrow> minesweeper_ai \<times> bool" where
  "extract_loop i x =
     (if i < length (knowledge (fst x))
      then extract_loop (Suc i) (extract_sentence i x)
      else x)"
  by pat_completeness auto
termination
  by (relation "measure (\<lambda>(i, x). length (knowledge (fst x)) - i)")
     (auto simp: length_knowledge_extract_sentence)

declare extract_loop.simps [simp del]

text \<open>Line 134: sentences with no cells left are dropped.\<close>

definition drop_empty :: "minesweeper_ai \<Rightarrow> minesweeper_ai" where
  "drop_empty st = st\<lparr>knowledge := filter (\<lambda>s. cells s \<noteq> {}) (knowledge st)\<rparr>"

text \<open>
  Lines 137 to 143: the body of the inner loop for one ordered pair
  \<open>(sentence1, sentence2)\<close>.
\<close>

definition subsume_candidate :: "sentence \<Rightarrow> sentence \<Rightarrow> sentence" where
  "subsume_candidate s1 s2 = \<lparr>cells = cells s2 - cells s1, count = count s2 - count s1\<rparr>"

definition subsume_pair ::
  "sentence \<Rightarrow> sentence \<Rightarrow> sentence list \<times> bool \<Rightarrow> sentence list \<times> bool" where
  "subsume_pair s1 s2 x =
     (case x of (kn, changed) \<Rightarrow>
        if s1 \<noteq> s2 \<and> cells s1 \<subseteq> cells s2
        then let new_sentence = subsume_candidate s1 s2
             in if new_sentence \<notin> set kn \<and> cells new_sentence \<noteq> {}
                then (kn @ [new_sentence], True)
                else (kn, changed)
        else (kn, changed))"

text \<open>
  The two nested \<open>for\<close> loops run over \<open>self.knowledge\<close> while it is appended to: a
  Python list iterator compares its index with the current length, so sentences appended
  during the loop are visited too.  Nothing bounds the number of appends in the code, so
  the loops are partial functions: \<open>None\<close> is a loop that never ends.
\<close>

partial_function (option) subsume_inner ::
  "sentence \<Rightarrow> nat \<Rightarrow> sentence list \<times> bool \<Rightarrow> (sentence list \<times> bool) option" where
  "subsume_inner s1 j x =
     (if j < length (fst x)
      then subsume_inner s1 (Suc j) (subsume_pair s1 (fst x ! j) x)
      else Some x)"

declare subsume_inner.simps [code]

partial_function (option) subsume_outer ::
  "nat \<Rightarrow> sentence list \<times> bool \<Rightarrow> (sentence list \<times> bool) option" where
  "subsume_outer i x =
     (if i < length (fst x)
      then (case subsume_inner (fst x ! i) 0 x of
              None \<Rightarrow> None
            | Some x' \<Rightarrow> subsume_outer (Suc i) x')
      else Some x)"

declare subsume_outer.simps [code]

text \<open>One pass of the body of \<open>while changed\<close> (lines 120 to 143).\<close>

definition inference_round :: "minesweeper_ai \<Rightarrow> (minesweeper_ai \<times> bool) option" where
  "inference_round st =
     (let x1 = extract_loop 0 (st, False);
          st2 = drop_empty (fst x1)
      in case subsume_outer 0 (knowledge st2, snd x1) of
           None \<Rightarrow> None
         | Some x2 \<Rightarrow> Some (st2\<lparr>knowledge := fst x2\<rparr>, snd x2))"

partial_function (option) update_knowledge :: "minesweeper_ai \<Rightarrow> minesweeper_ai option" where
  "update_knowledge st =
     (case inference_round st of
        None \<Rightarrow> None
      | Some x \<Rightarrow> if snd x then update_knowledge (fst x) else Some (fst x))"

declare update_knowledge.simps [code]

definition add_knowledge :: "cell \<Rightarrow> int \<Rightarrow> minesweeper_ai \<Rightarrow> minesweeper_ai option" where
  "add_knowledge c n st = update_knowledge (record_observation c n st)"

definition make_safe_move :: "minesweeper_ai \<Rightarrow> cell option" where
  "make_safe_move st = find (\<lambda>c. c \<notin> moves_made st) (set_iter (safes st))"

text \<open>
  \<open>make_random_move\<close> draws with \<open>random.randint\<close> until a draw is accepted.  The
  draws are a parameter: \<open>draws k\<close> is the pair \<open>(i, j)\<close> drawn in iteration \<open>k\<close>.
  \<open>randint(0, n - 1)\<close> raises \<open>ValueError\<close> when the range is empty.  \<open>None\<close> is a
  loop that never ends, \<open>Some (Inr None)\<close> is the Python value \<open>None\<close>.
\<close>

datatype error = ValueError

partial_function (option) make_random_move ::
  "minesweeper_ai \<Rightarrow> (nat \<Rightarrow> cell) \<Rightarrow> nat \<Rightarrow> (error + cell option) option" where
  "make_random_move st draws k =
     (if height st - 1 < 0 \<or> width st - 1 < 0 then Some (Inl ValueError)
      else let move = draws k
           in if move \<notin> moves_made st \<and> move \<notin> mines st then Some (Inr (Some move))
              else if int (card (moves_made st)) + int (card (mines st)) = height st * width st
                   then Some (Inr None)
                   else make_random_move st draws (Suc k))"

declare make_random_move.simps [code]

section \<open>Vocabulary of the specification\<close>

text \<open>The cells of the board, and the (at most eight) in-bounds cells around a cell.\<close>

definition board :: "int \<Rightarrow> int \<Rightarrow> cell set" where
  "board h w = {0..<h} \<times> {0..<w}"

definition neighborhood :: "int \<Rightarrow> int \<Rightarrow> cell \<Rightarrow> cell set" where
  "neighborhood h w c =
     ({fst c - 1..fst c + 1} \<times> {snd c - 1..snd c + 1}) \<inter> board h w - {c}"

section \<open>Marking a set of cells\<close>

text \<open>
  Marking every cell of a set \<open>S\<close> in a sentence, and in the whole knowledge base, in one
  step.  The loops \<open>for safe in safes: self.mark_safe(safe)\<close> and
  \<open>for mine in mines: self.mark_mine(mine)\<close> compute these (lemmas \<open>fold_ai_mark_safe\<close>,
  \<open>fold_ai_mark_mine\<close>), and \<open>resolve_sentence\<close> is what the body of the extraction loop
  computes for a sentence with finitely many cells (lemma \<open>extract_sentence_eq\<close>).
\<close>


definition mark_all_safe :: "cell set \<Rightarrow> sentence \<Rightarrow> sentence" where
  "mark_all_safe S s = s\<lparr>cells := cells s - S\<rparr>"

definition mark_all_mine :: "cell set \<Rightarrow> sentence \<Rightarrow> sentence" where
  "mark_all_mine S s = \<lparr>cells = cells s - S, count = count s - int (card (cells s \<inter> S))\<rparr>"

definition resolve_safe :: "cell set \<Rightarrow> minesweeper_ai \<Rightarrow> minesweeper_ai" where
  "resolve_safe S st =
     st\<lparr>safes := safes st \<union> S, knowledge := map (mark_all_safe S) (knowledge st)\<rparr>"

definition resolve_mine :: "cell set \<Rightarrow> minesweeper_ai \<Rightarrow> minesweeper_ai" where
  "resolve_mine S st =
     st\<lparr>mines := mines st \<union> S, knowledge := map (mark_all_mine S) (knowledge st)\<rparr>"


definition resolve_sentence :: "sentence \<Rightarrow> minesweeper_ai \<times> bool \<Rightarrow> minesweeper_ai \<times> bool" where
  "resolve_sentence s x =
     (if cells s = {} then x
      else if count s = 0 then (resolve_safe (cells s) (fst x), True)
      else if count s = int (card (cells s)) then (resolve_mine (cells s) (fst x), True)
      else x)"

section \<open>Ground truth and invariants\<close>

text \<open>
  A sentence \<open>holds\<close> for a mine assignment \<open>M\<close> (the set of cells that are mines) when
  its count is the number of its cells in \<open>M\<close>.  A knowledge base is \<open>consistent\<close> with
  \<open>M\<close> when its known mines are in \<open>M\<close>, its known safe cells are not, and every
  sentence has finitely many cells and holds.  It is \<open>hygienic\<close> when every sentence
  only mentions cells of the board that are in neither \<open>mines\<close> nor \<open>safes\<close>.
\<close>


definition sentence_holds :: "cell set \<Rightarrow> sentence \<Rightarrow> bool" where
  "sentence_holds M s \<longleftrightarrow> count s = int (card (cells s \<inter> M))"

definition consistent :: "cell set \<Rightarrow> minesweeper_ai \<Rightarrow> bool" where
  "consistent M st \<longleftrightarrow>
     mines st \<subseteq> M \<and> safes st \<inter> M = {} \<and>
     (\<forall>s \<in> set (knowledge st). finite (cells s) \<and> sentence_holds M s)"

definition hygienic :: "minesweeper_ai \<Rightarrow> bool" where
  "hygienic st \<longleftrightarrow>
     (\<forall>s \<in> set (knowledge st).
        cells s \<subseteq> board (height st) (width st) \<and> cells s \<inter> (mines st \<union> safes st) = {})"

definition all_cells :: "minesweeper_ai \<Rightarrow> cell set" where
  "all_cells st = (\<Union>s \<in> set (knowledge st). cells s)"

section \<open>Measures for termination\<close>

text \<open>
  Inside a finite set \<open>V\<close> of sentences that contains the candidates of its pairs, each
  append to the list uses up one sentence of \<open>V\<close> that was not in the list, so
  \<open>potential\<close> stays the same while the list grows.
\<close>

definition potential :: "sentence set \<Rightarrow> sentence list \<Rightarrow> nat" where
  "potential V kn = length kn + card (V - set kn)"

definition subsume_closed :: "sentence set \<Rightarrow> bool" where
  "subsume_closed V \<longleftrightarrow>
     (\<forall>a \<in> V. \<forall>b \<in> V. cells a \<subseteq> cells b \<and> cells (subsume_candidate a b) \<noteq> {}
        \<longrightarrow> subsume_candidate a b \<in> V)"

text \<open>The sentences over a set \<open>B\<close> of cells that hold for \<open>M\<close>.\<close>

definition universe :: "cell set \<Rightarrow> cell set \<Rightarrow> sentence set" where
  "universe M B = {s. cells s \<subseteq> B \<and> sentence_holds M s}"

text \<open>
  The state in which the procedure stops: no sentence is empty or yields known cells, and
  the candidate of every ordered pair of distinct sentences is present unless it is empty.
\<close>

definition settled :: "minesweeper_ai \<Rightarrow> bool" where
  "settled st \<longleftrightarrow>
     (\<forall>s \<in> set (knowledge st). cells s \<noteq> {} \<and> known_safes s = {} \<and> known_mines s = {}) \<and>
     (\<forall>a \<in> set (knowledge st). \<forall>b \<in> set (knowledge st).
        a \<noteq> b \<and> cells a \<subseteq> cells b \<and> cells (subsume_candidate a b) \<noteq> {}
          \<longrightarrow> subsume_candidate a b \<in> set (knowledge st))"

text \<open>
  The rank of a state: the number of cells its sentences mention, then the number of
  non-empty sentences over the board that hold and are not in the list.
\<close>

definition live_universe :: "cell set \<Rightarrow> minesweeper_ai \<Rightarrow> sentence set" where
  "live_universe M st = {s \<in> universe M (board (height st) (width st)). cells s \<noteq> {}}"

definition rank :: "cell set \<Rightarrow> minesweeper_ai \<Rightarrow> nat \<times> nat" where
  "rank M st = (card (all_cells st), card (live_universe M st - set (knowledge st)))"

section \<open>Sequences of operations\<close>

text \<open>
  The operations of the class as a caller can issue them, and the state they lead to.  The
  two move queries change no field; \<open>make_random_move\<close> may not return.  An operation is
  \<open>truthful\<close> for a mine assignment \<open>M\<close> when it reports what is true of \<open>M\<close>: the revealed
  cell is not a mine and the count is the number of mines around it, \<open>mark_mine\<close> is called
  on mines and \<open>mark_safe\<close> on other cells.
\<close>

datatype operation =
    AddKnowledge cell int
  | MarkMine cell
  | MarkSafe cell
  | MakeSafeMove
  | MakeRandomMove "nat \<Rightarrow> cell"

fun step :: "operation \<Rightarrow> minesweeper_ai \<Rightarrow> minesweeper_ai option" where
  "step (AddKnowledge c n) st = add_knowledge c n st"
| "step (MarkMine c) st = Some (ai_mark_mine c st)"
| "step (MarkSafe c) st = Some (ai_mark_safe c st)"
| "step MakeSafeMove st = (case make_safe_move st of _ \<Rightarrow> Some st)"
| "step (MakeRandomMove draws) st =
     (case make_random_move st draws 0 of None \<Rightarrow> None | Some _ \<Rightarrow> Some st)"

fun run :: "operation list \<Rightarrow> minesweeper_ai \<Rightarrow> minesweeper_ai option" where
  "run [] st = Some st"
| "run (opn # ops) st = (case step opn st of None \<Rightarrow> None | Some st' \<Rightarrow> run ops st')"

fun truthful :: "cell set \<Rightarrow> int \<Rightarrow> int \<Rightarrow> operation \<Rightarrow> bool" where
  "truthful M h w (AddKnowledge c n) \<longleftrightarrow> c \<notin> M \<and> n = int (card (neighborhood h w c \<inter> M))"
| "truthful M h w (MarkMine c) \<longleftrightarrow> c \<in> M"
| "truthful M h w (MarkSafe c) \<longleftrightarrow> c \<notin> M"
| "truthful M h w MakeSafeMove \<longleftrightarrow> True"
| "truthful M h w (MakeRandomMove draws) \<longleftrightarrow> True"

section \<open>Vocabulary for the random move\<close>

text \<open>
  Two streams of draws: one that repeats a cell, one that walks along row 0.  A cell is
  \<open>occupied\<close> when it is a move made or a known mine; \<open>board_full\<close> is the test of line
  108.
\<close>

definition constant_draws :: "cell \<Rightarrow> nat \<Rightarrow> cell" where
  "constant_draws c k = c"

definition cycle_draws :: "int \<Rightarrow> nat \<Rightarrow> cell" where
  "cycle_draws w k = (0, int k mod w)"

definition occupied :: "minesweeper_ai \<Rightarrow> cell set" where
  "occupied st = moves_made st \<union> mines st"

definition board_full :: "minesweeper_ai \<Rightarrow> bool" where
  "board_full st \<longleftrightarrow>
     int (card (moves_made st)) + int (card (mines st)) = height st * width st"

section \<open>The points of a run\<close>

text \<open>
  \<open>extract_upto k\<close> is the extraction loop after its first \<open>k\<close> sentences.  A round of the
  run of \<open>update_knowledge\<close> from \<open>st\<close> starts in \<open>st\<close> or where a round that set the flag
  ended.  The knowledge base states \<open>visited\<close> by the run are those between two sentences
  of an extraction loop, the one after the empty sentences are dropped, and those of the
  subsumption loops, in which the list is a prefix of the list the round ends with.  A
  cell is \<open>pending\<close> when it is resolved as what it is in \<open>M\<close>, or lies in a sentence all
  of whose cells are what it is.
\<close>

primrec extract_upto :: "nat \<Rightarrow> minesweeper_ai \<times> bool \<Rightarrow> minesweeper_ai \<times> bool" where
  "extract_upto 0 x = x"
| "extract_upto (Suc k) x = extract_sentence k (extract_upto k x)"

inductive round_start :: "minesweeper_ai \<Rightarrow> minesweeper_ai \<Rightarrow> bool" for st where
  first_round: "round_start st st"
| next_round: "round_start st p \<Longrightarrow> inference_round p = Some (p', True) \<Longrightarrow> round_start st p'"

inductive visited :: "minesweeper_ai \<Rightarrow> minesweeper_ai \<Rightarrow> bool" for st where
  in_extraction:
    "round_start st p \<Longrightarrow> k \<le> length (knowledge p) \<Longrightarrow>
     visited st (fst (extract_upto k (p, False)))"
| after_collection:
    "round_start st p \<Longrightarrow> visited st (drop_empty (fst (extract_loop 0 (p, False))))"
| in_subsumption:
    "round_start st p \<Longrightarrow> inference_round p = Some x \<Longrightarrow>
     length (knowledge (drop_empty (fst (extract_loop 0 (p, False))))) \<le> m \<Longrightarrow>
     visited st ((fst x)\<lparr>knowledge := take m (knowledge (fst x))\<rparr>)"

definition pending :: "cell set \<Rightarrow> cell \<Rightarrow> minesweeper_ai \<Rightarrow> bool" where
  "pending M c st \<longleftrightarrow>
     (if c \<in> M
      then c \<in> mines st \<or> (\<exists>s \<in> set (knowledge st). c \<in> cells s \<and> cells s \<subseteq> M)
      else c \<in> safes st \<or> (\<exists>s \<in> set (knowledge st). c \<in> cells s \<and> cells s \<inter> M = {}))"

section \<open>Comparing runs\<close>

text \<open>
  A state is \<open>below\<close> a state \<open>f\<close> when its known cells are known in \<open>f\<close> and every
  sentence of it, once the cells known in \<open>f\<close> are removed, is empty or has the cells of
  a sentence of \<open>f\<close>.
\<close>

definition known :: "minesweeper_ai \<Rightarrow> cell set" where
  "known st = mines st \<union> safes st"

definition covered :: "minesweeper_ai \<Rightarrow> sentence list \<Rightarrow> bool" where
  "covered f kn \<longleftrightarrow>
     (\<forall>s \<in> set kn. cells s \<subseteq> known f \<or> (\<exists>t \<in> set (knowledge f). cells t = cells s - known f))"

definition below :: "minesweeper_ai \<Rightarrow> minesweeper_ai \<Rightarrow> bool" where
  "below f st \<longleftrightarrow> mines st \<subseteq> mines f \<and> safes st \<subseteq> safes f \<and> covered f (knowledge st)"

section \<open>Sentences\<close>

text \<open>
  C4.  The four operations of a Sentence: \<open>known_mines\<close> is the whole cell set when the
  count equals the number of cells and empty otherwise; \<open>known_safes\<close> is the whole cell
  set when the count is 0 and empty otherwise (both are pure functions of the sentence);
  \<open>mark_mine\<close> removes a cell that is present and lowers the count by one, \<open>mark_safe\<close>
  removes a cell that is present and keeps the count; both leave the sentence as it is
  when the cell is absent.
\<close>

theorem sentence_operations:
  "(known_mines s = (if count s = int (card (cells s)) then cells s else {})) \<and>
   (known_safes s = (if count s = 0 then cells s else {})) \<and>
   (c \<in> cells s \<longrightarrow>
      cells (sentence_mark_mine c s) = cells s - {c} \<and>
      count (sentence_mark_mine c s) = count s - 1) \<and>
   (c \<notin> cells s \<longrightarrow> sentence_mark_mine c s = s) \<and>
   (c \<in> cells s \<longrightarrow>
      cells (sentence_mark_safe c s) = cells s - {c} \<and>
      count (sentence_mark_safe c s) = count s) \<and>
   (c \<notin> cells s \<longrightarrow> sentence_mark_safe c s = s)"
  by (simp add: known_mines_def known_safes_def sentence_mark_mine_def sentence_mark_safe_def)

theorem sentence_operations_witness:
  "known_mines \<lparr>cells = {(0, 0), (0, 1)}, count = 2\<rparr> = {(0, 0), (0, 1)} \<and>
   known_safes \<lparr>cells = {(0, 0), (0, 1)}, count = 2\<rparr> = {} \<and>
   cells (sentence_mark_mine (0, 0) \<lparr>cells = {(0, 0), (0, 1)}, count = 2\<rparr>) = {(0, 1)} \<and>
   count (sentence_mark_mine (0, 0) \<lparr>cells = {(0, 0), (0, 1)}, count = 2\<rparr>) = 1 \<and>
   sentence_mark_mine (5, 5) \<lparr>cells = {(0, 0), (0, 1)}, count = 2\<rparr>
     = \<lparr>cells = {(0, 0), (0, 1)}, count = 2\<rparr> \<and>
   cells (sentence_mark_safe (0, 0) \<lparr>cells = {(0, 0), (0, 1)}, count = 2\<rparr>) = {(0, 1)} \<and>
   count (sentence_mark_safe (0, 0) \<lparr>cells = {(0, 0), (0, 1)}, count = 2\<rparr>) = 2 \<and>
   sentence_mark_safe (5, 5) \<lparr>cells = {(0, 0), (0, 1)}, count = 2\<rparr>
     = \<lparr>cells = {(0, 0), (0, 1)}, count = 2\<rparr>"
  using sentence_operations [of "\<lparr>cells = {(0, 0), (0, 1)}, count = 2\<rparr>" "(0, 0)"]
        sentence_operations [of "\<lparr>cells = {(0, 0), (0, 1)}, count = 2\<rparr>" "(5, 5)"]
  by simp

section \<open>Observation ingestion\<close>

lemma comprehension_inner:
  "concat (map (\<lambda>y. if P x y then [(x, y)] else []) ys)
     = filter (\<lambda>p. P (fst p) (snd p)) (map (Pair x) ys)"
  by (induction ys) auto

lemma comprehension_product:
  "concat (map (\<lambda>x. concat (map (\<lambda>y. if P x y then [(x, y)] else []) ys)) xs)
     = filter (\<lambda>p. P (fst p) (snd p)) (List.product xs ys)"
  by (induction xs) (auto simp: comprehension_inner)

lemma get_neighbors_filter:
  "get_neighbors st (i, j) =
     filter (\<lambda>p. 0 \<le> fst p \<and> fst p < height st \<and> 0 \<le> snd p \<and> snd p < width st \<and> p \<noteq> (i, j))
       (List.product [i - 1..i + 1] [j - 1..j + 1])"
  unfolding get_neighbors_def
  by (simp add: comprehension_product [where P = "\<lambda>x y. 0 \<le> x \<and> x < height st \<and> 0 \<le> y \<and> y < width st \<and> (x, y) \<noteq> (i, j)", simplified] cong: filter_cong)

lemma set_get_neighbors: "set (get_neighbors st c) = neighborhood (height st) (width st) c"
  by (cases c) (auto simp: get_neighbors_filter neighborhood_def board_def)

lemma distinct_get_neighbors: "distinct (get_neighbors st c)"
  by (cases c) (simp add: get_neighbors_filter distinct_product)

lemma length_get_neighbors: "length (get_neighbors st c) \<le> 8"
proof (cases c)
  case (Pair i j)
  let ?box = "List.product [i - 1..i + 1] [j - 1..j + 1]"
  have len: "length ?box = 9" by simp
  have "set (get_neighbors st c) \<subseteq> set ?box - {(i, j)}"
    using Pair by (auto simp: get_neighbors_filter)
  moreover have "card (set ?box - {(i, j)}) = 8"
  proof -
    have "distinct ?box" by (simp add: distinct_product)
    then have "card (set ?box) = 9" using len by (metis distinct_card)
    moreover have "(i, j) \<in> set ?box" by simp
    ultimately show ?thesis by simp
  qed
  ultimately have "card (set (get_neighbors st c)) \<le> 8"
    by (metis card_mono finite_Diff finite_set)
  then show ?thesis by (simp add: distinct_card distinct_get_neighbors)
qed

lemma neighborhood_board: "neighborhood h w c \<subseteq> board h w"
  by (auto simp: neighborhood_def board_def)

lemma neighborhood_irrefl: "c \<notin> neighborhood h w c"
  by (auto simp: neighborhood_def)

lemma finite_neighborhood: "finite (neighborhood h w c)"
  by (rule finite_subset [OF neighborhood_board]) (simp add: board_def)

lemma partition_neighbors_result:
  "distinct nbs \<Longrightarrow> set nbs \<inter> U = {} \<Longrightarrow>
   partition_neighbors st nbs (U, n) =
     (U \<union> (set nbs - safes st - mines st),
      n - int (card (set nbs \<inter> mines st - safes st)))"
proof (induction nbs arbitrary: U n)
  case Nil
  then show ?case by simp
next
  case (Cons nb nbs)
  have notin: "nb \<notin> set nbs \<inter> mines st - safes st" using Cons.prems by simp
  consider (safe) "nb \<in> safes st" | (mine) "nb \<notin> safes st" "nb \<in> mines st"
    | (unknown) "nb \<notin> safes st" "nb \<notin> mines st" by blast
  then show ?case
  proof cases
    case safe
    have "set (nb # nbs) \<inter> mines st - safes st = set nbs \<inter> mines st - safes st"
      using safe by auto
    moreover have "set (nb # nbs) - safes st - mines st = set nbs - safes st - mines st"
      using safe by auto
    ultimately show ?thesis using safe Cons by simp
  next
    case mine
    have "set (nb # nbs) \<inter> mines st - safes st = insert nb (set nbs \<inter> mines st - safes st)"
      using mine by auto
    then have "card (set (nb # nbs) \<inter> mines st - safes st)
                 = Suc (card (set nbs \<inter> mines st - safes st))"
      using notin by simp
    moreover have "set (nb # nbs) - safes st - mines st = set nbs - safes st - mines st"
      using mine by auto
    ultimately show ?thesis using mine Cons by simp
  next
    case unknown
    have "set (nb # nbs) \<inter> mines st - safes st = set nbs \<inter> mines st - safes st"
      using unknown by auto
    moreover have "insert nb U \<union> (set nbs - safes st - mines st)
                     = U \<union> (set (nb # nbs) - safes st - mines st)"
      using unknown by auto
    moreover have "set nbs \<inter> insert nb U = {}" using Cons.prems by auto
    ultimately show ?thesis using unknown Cons by simp
  qed
qed

lemma record_observation_fields:
  "moves_made (record_observation c n st) = insert c (moves_made st)"
  "safes (record_observation c n st) = insert c (safes st)"
  "mines (record_observation c n st) = mines st"
  "height (record_observation c n st) = height st"
  "width (record_observation c n st) = width st"
  by (simp_all add: record_observation_def ai_mark_safe_def Let_def split: prod.splits)

lemma record_observation_knowledge:
  "knowledge (record_observation c n st) =
     map (sentence_mark_safe c) (knowledge st) @
     (if neighborhood (height st) (width st) c - safes st - mines st = {} then []
      else [\<lparr>cells = neighborhood (height st) (width st) c - safes st - mines st,
             count = n - int (card (neighborhood (height st) (width st) c \<inter> mines st - safes st))\<rparr>])"
proof -
  let ?st2 = "ai_mark_safe c (st\<lparr>moves_made := insert c (moves_made st)\<rparr>)"
  let ?N = "neighborhood (height st) (width st) c"
  have nb: "set (get_neighbors ?st2 c) = ?N"
    by (simp add: set_get_neighbors ai_mark_safe_def)
  have s2: "safes ?st2 = insert c (safes st)" "mines ?st2 = mines st"
    by (simp_all add: ai_mark_safe_def)
  have a: "?N - insert c (safes st) - mines st = ?N - safes st - mines st"
    using neighborhood_irrefl [of c "height st" "width st"] by auto
  have b: "?N \<inter> mines st - insert c (safes st) = ?N \<inter> mines st - safes st"
    using neighborhood_irrefl [of c "height st" "width st"] by auto
  have "partition_neighbors ?st2 (get_neighbors ?st2 c) ({}, n)
          = (?N - safes st - mines st, n - int (card (?N \<inter> mines st - safes st)))"
    using partition_neighbors_result [of "get_neighbors ?st2 c" "{}" ?st2 n]
    by (simp add: distinct_get_neighbors nb s2 a b)
  then show ?thesis
    by (simp add: record_observation_def Let_def ai_mark_safe_def)
qed

text \<open>
  C5.  \<open>add_knowledge(cell, count)\<close> first records the observation and then runs the
  fixpoint procedure on the result.  Recording adds the cell to \<open>moves_made\<close> and to
  \<open>safes\<close> and marks it safe in every sentence; the neighbours are the distinct, at most
  eight cells around the cell inside the board; neighbours in \<open>safes\<close> are dropped,
  the remaining neighbours in \<open>mines\<close> are dropped and lower the count by one each (these
  are all neighbours in \<open>mines\<close> when \<open>mines\<close> and \<open>safes\<close> are disjoint); the
  sentence of the other neighbours is appended at the end of \<open>knowledge\<close> exactly when
  there is such a neighbour, so no sentence without cells is stored.
\<close>

theorem add_knowledge_ingestion:
  "add_knowledge c n st = update_knowledge (record_observation c n st) \<and>
   moves_made (record_observation c n st) = insert c (moves_made st) \<and>
   safes (record_observation c n st) = insert c (safes st) \<and>
   mines (record_observation c n st) = mines st \<and>
   set (get_neighbors st c) = neighborhood (height st) (width st) c \<and>
   distinct (get_neighbors st c) \<and> length (get_neighbors st c) \<le> 8 \<and>
   knowledge (record_observation c n st) =
     map (sentence_mark_safe c) (knowledge st) @
     (if neighborhood (height st) (width st) c - safes st - mines st = {} then []
      else [\<lparr>cells = neighborhood (height st) (width st) c - safes st - mines st,
             count = n - int (card (neighborhood (height st) (width st) c \<inter> mines st - safes st))\<rparr>]) \<and>
   (mines st \<inter> safes st = {} \<longrightarrow>
      neighborhood (height st) (width st) c \<inter> mines st - safes st
        = neighborhood (height st) (width st) c \<inter> mines st)"
proof -
  have "neighborhood (height st) (width st) c \<inter> mines st - safes st
        = neighborhood (height st) (width st) c \<inter> mines st"
    if "mines st \<inter> safes st = {}"
    using that by blast
  then show ?thesis
    using record_observation_knowledge [of c n st]
    by (simp add: add_knowledge_def record_observation_fields set_get_neighbors
        distinct_get_neighbors length_get_neighbors)
qed

theorem add_knowledge_ingestion_witness:
  "moves_made (record_observation (0, 0) 2
      \<lparr>height = 3, width = 3, moves_made = {}, mines = {(0, 1)}, safes = {(1, 0)},
       knowledge = [\<lparr>cells = {(0, 0), (1, 1)}, count = 1\<rparr>]\<rparr>) = {(0, 0)} \<and>
   safes (record_observation (0, 0) 2
      \<lparr>height = 3, width = 3, moves_made = {}, mines = {(0, 1)}, safes = {(1, 0)},
       knowledge = [\<lparr>cells = {(0, 0), (1, 1)}, count = 1\<rparr>]\<rparr>) = {(0, 0), (1, 0)} \<and>
   knowledge (record_observation (0, 0) 2
      \<lparr>height = 3, width = 3, moves_made = {}, mines = {(0, 1)}, safes = {(1, 0)},
       knowledge = [\<lparr>cells = {(0, 0), (1, 1)}, count = 1\<rparr>]\<rparr>)
     = [\<lparr>cells = {(1, 1)}, count = 1\<rparr>, \<lparr>cells = {(1, 1)}, count = 1\<rparr>]"
proof -
  have a: "neighborhood 3 3 (0, 0) - {(1, 0)} - {(0, 1)} = {(1, 1)}" by code_simp
  have b: "card (neighborhood 3 3 (0, 0) \<inter> {(0, 1)} - {(1, 0)}) = 1" by code_simp
  show ?thesis
    using add_knowledge_ingestion [of "(0, 0)" 2
      "\<lparr>height = 3, width = 3, moves_made = {}, mines = {(0, 1)}, safes = {(1, 0)},
        knowledge = [\<lparr>cells = {(0, 0), (1, 1)}, count = 1\<rparr>]\<rparr>"]
    apply (simp only: minesweeper_ai.simps a b)
    apply (simp add: sentence_mark_safe_def)
    done
qed

section \<open>Marking loops in closed form\<close>

lemma sentence_mark_safe_eq: "sentence_mark_safe c s = mark_all_safe {c} s"
  by (simp add: sentence_mark_safe_def mark_all_safe_def)

lemma sentence_mark_mine_eq: "sentence_mark_mine c s = mark_all_mine {c} s"
  by (simp add: sentence_mark_mine_def mark_all_mine_def)

lemma mark_all_safe_twice: "mark_all_safe T (mark_all_safe S s) = mark_all_safe (S \<union> T) s"
  by (simp add: mark_all_safe_def Diff_eq Int_assoc)

lemma mark_all_mine_twice:
  assumes "finite (cells s)" "S \<inter> T = {}"
  shows "mark_all_mine T (mark_all_mine S s) = mark_all_mine (S \<union> T) s"
proof -
  have "cells s \<inter> (S \<union> T) = (cells s \<inter> S) \<union> ((cells s - S) \<inter> T)" by auto
  moreover have "(cells s \<inter> S) \<inter> ((cells s - S) \<inter> T) = {}" by auto
  ultimately have "card (cells s \<inter> (S \<union> T)) = card (cells s \<inter> S) + card ((cells s - S) \<inter> T)"
    using assms(1) by (simp add: card_Un_disjoint)
  then show ?thesis by (simp add: mark_all_mine_def Diff_eq Int_assoc)
qed

lemma ai_mark_safe_eq: "ai_mark_safe c st = resolve_safe {c} st"
  by (simp add: ai_mark_safe_def resolve_safe_def sentence_mark_safe_eq [abs_def])

lemma ai_mark_mine_eq: "ai_mark_mine c st = resolve_mine {c} st"
  by (simp add: ai_mark_mine_def resolve_mine_def sentence_mark_mine_eq [abs_def])

lemma resolve_safe_twice: "resolve_safe T (resolve_safe S st) = resolve_safe (S \<union> T) st"
  by (simp add: resolve_safe_def mark_all_safe_twice Un_assoc)

lemma resolve_mine_twice:
  assumes "\<forall>s \<in> set (knowledge st). finite (cells s)" "S \<inter> T = {}"
  shows "resolve_mine T (resolve_mine S st) = resolve_mine (S \<union> T) st"
  using assms by (simp add: resolve_mine_def mark_all_mine_twice Un_assoc)

lemma mark_all_safe_empty: "mark_all_safe {} = (\<lambda>s. s)"
  by (rule ext) (simp add: mark_all_safe_def)

lemma mark_all_mine_empty: "mark_all_mine {} = (\<lambda>s. s)"
  by (rule ext) (simp add: mark_all_mine_def)

lemma resolve_safe_empty: "resolve_safe {} st = st"
  by (simp add: resolve_safe_def mark_all_safe_empty)

lemma resolve_mine_empty: "resolve_mine {} st = st"
  by (simp add: resolve_mine_def mark_all_mine_empty)

lemma fold_ai_mark_safe: "fold ai_mark_safe xs st = resolve_safe (set xs) st"
proof (induction xs arbitrary: st)
  case Nil
  show ?case by (simp add: resolve_safe_empty)
next
  case (Cons x xs)
  have "fold ai_mark_safe (x # xs) st = fold ai_mark_safe xs (ai_mark_safe x st)" by simp
  also have "\<dots> = resolve_safe (set xs) (ai_mark_safe x st)" by (rule Cons.IH)
  also have "\<dots> = resolve_safe ({x} \<union> set xs) st"
    by (simp only: ai_mark_safe_eq resolve_safe_twice)
  finally show ?case by simp
qed

lemma finite_cells_resolve_mine:
  "\<forall>s \<in> set (knowledge st). finite (cells s) \<Longrightarrow>
   \<forall>s \<in> set (knowledge (resolve_mine S st)). finite (cells s)"
  by (auto simp: resolve_mine_def mark_all_mine_def)

lemma fold_ai_mark_mine:
  "distinct xs \<Longrightarrow> \<forall>s \<in> set (knowledge st). finite (cells s) \<Longrightarrow>
   fold ai_mark_mine xs st = resolve_mine (set xs) st"
proof (induction xs arbitrary: st)
  case Nil
  show ?case by (simp add: resolve_mine_empty)
next
  case (Cons x xs)
  have "fold ai_mark_mine (x # xs) st = fold ai_mark_mine xs (ai_mark_mine x st)" by simp
  also have "\<dots> = fold ai_mark_mine xs (resolve_mine {x} st)"
    by (simp only: ai_mark_mine_eq)
  also have "\<dots> = resolve_mine (set xs) (resolve_mine {x} st)"
    using Cons.prems by (intro Cons.IH finite_cells_resolve_mine) simp_all
  also have "\<dots> = resolve_mine ({x} \<union> set xs) st"
    using Cons.prems by (intro resolve_mine_twice) simp_all
  finally show ?case by simp
qed

lemma set_iter_finite: "finite S \<Longrightarrow> set (set_iter S) = S \<and> distinct (set_iter S)"
  by (simp add: set_iter_def)

lemma extract_sentence_eq:
  assumes "\<forall>s \<in> set (knowledge (fst x)). finite (cells s)" "i < length (knowledge (fst x))"
  shows "extract_sentence i x = resolve_sentence (knowledge (fst x) ! i) x"
proof -
  obtain st ch where x: "x = (st, ch)" by (cases x)
  let ?s = "knowledge st ! i"
  have fin: "finite (cells ?s)" using assms x by simp
  have c0: "cells ?s \<noteq> {} \<Longrightarrow> card (cells ?s) \<noteq> 0" using fin by simp
  have fk: "\<forall>s \<in> set (knowledge (st\<lparr>mines := mines st \<union> cells ?s\<rparr>)). finite (cells s)"
    using assms x by simp
  show ?thesis
    using c0 fin fk
    by (auto simp: x extract_sentence_def resolve_sentence_def Let_def known_safes_def known_mines_def
        fold_ai_mark_safe fold_ai_mark_mine set_iter_finite resolve_safe_def resolve_mine_def)
qed

section \<open>The extraction pass keeps the invariants\<close>

lemma finite_board: "finite (board h w)"
  by (simp add: board_def)

lemma hygienic_finite: "hygienic st \<Longrightarrow> s \<in> set (knowledge st) \<Longrightarrow> finite (cells s)"
  unfolding hygienic_def by (meson finite_board finite_subset)

lemma consistent_finite: "consistent M st \<Longrightarrow> s \<in> set (knowledge st) \<Longrightarrow> finite (cells s)"
  by (simp add: consistent_def)

lemma sentence_holds_safe:
  "sentence_holds M s \<Longrightarrow> S \<inter> M = {} \<Longrightarrow> sentence_holds M (mark_all_safe S s)"
proof -
  assume a: "sentence_holds M s" "S \<inter> M = {}"
  have "(cells s - S) \<inter> M = cells s \<inter> M" using a(2) by auto
  then show ?thesis using a(1) by (simp add: sentence_holds_def mark_all_safe_def)
qed

lemma sentence_holds_mine:
  assumes "sentence_holds M s" "S \<subseteq> M" "finite (cells s)"
  shows "sentence_holds M (mark_all_mine S s)"
proof -
  have "cells s \<inter> M = (cells s \<inter> S) \<union> ((cells s - S) \<inter> M)" using assms(2) by auto
  moreover have "(cells s \<inter> S) \<inter> ((cells s - S) \<inter> M) = {}" by auto
  ultimately have "card (cells s \<inter> M) = card (cells s \<inter> S) + card ((cells s - S) \<inter> M)"
    using assms(3) by (metis card_Un_disjoint finite_Diff finite_Int)
  then show ?thesis using assms(1) by (simp add: sentence_holds_def mark_all_mine_def)
qed

lemma consistent_resolve_safe:
  "consistent M st \<Longrightarrow> S \<inter> M = {} \<Longrightarrow> consistent M (resolve_safe S st)"
  unfolding consistent_def resolve_safe_def
  by (auto simp: sentence_holds_safe) (auto simp: mark_all_safe_def)

lemma consistent_resolve_mine:
  "consistent M st \<Longrightarrow> S \<subseteq> M \<Longrightarrow> consistent M (resolve_mine S st)"
  unfolding consistent_def resolve_mine_def
  by (auto simp: sentence_holds_mine) (auto simp: mark_all_mine_def)

lemma hygienic_resolve_safe: "hygienic st \<Longrightarrow> hygienic (resolve_safe S st)"
  unfolding hygienic_def resolve_safe_def mark_all_safe_def by auto

lemma hygienic_resolve_mine: "hygienic st \<Longrightarrow> hygienic (resolve_mine S st)"
  unfolding hygienic_def resolve_mine_def mark_all_mine_def by auto

lemma holds_count_zero:
  "sentence_holds M s \<Longrightarrow> finite (cells s) \<Longrightarrow> count s = 0 \<Longrightarrow> cells s \<inter> M = {}"
  by (simp add: sentence_holds_def)

lemma holds_count_full:
  assumes "sentence_holds M s" "finite (cells s)" "count s = int (card (cells s))"
  shows "cells s \<subseteq> M"
proof -
  have "card (cells s \<inter> M) = card (cells s)" using assms by (simp add: sentence_holds_def)
  then have "cells s \<inter> M = cells s"
    using assms(2) by (metis card_subset_eq inf_le1)
  then show ?thesis by auto
qed

lemma consistent_resolve_sentence:
  assumes "consistent M (fst x)" "s \<in> set (knowledge (fst x))"
  shows "consistent M (fst (resolve_sentence s x))"
proof -
  have h: "sentence_holds M s" "finite (cells s)" using assms by (auto simp: consistent_def)
  show ?thesis
    using assms(1) holds_count_zero [OF h] holds_count_full [OF h]
    by (simp add: resolve_sentence_def consistent_resolve_safe consistent_resolve_mine)
qed

lemma hygienic_resolve_sentence:
  "hygienic (fst x) \<Longrightarrow> hygienic (fst (resolve_sentence s x))"
  by (simp add: resolve_sentence_def hygienic_resolve_safe hygienic_resolve_mine)

lemma extract_loop_rule:
  assumes "P x"
    and "\<And>y s. P y \<Longrightarrow> s \<in> set (knowledge (fst y)) \<Longrightarrow> P (resolve_sentence s y)"
    and "\<And>y s. P y \<Longrightarrow> s \<in> set (knowledge (fst y)) \<Longrightarrow> finite (cells s)"
  shows "P (extract_loop i x)"
  using assms(1)
proof (induction i x rule: extract_loop.induct)
  case (1 i x)
  show ?case
  proof (cases "i < length (knowledge (fst x))")
    case True
    have "extract_sentence i x = resolve_sentence (knowledge (fst x) ! i) x"
      using True assms(3) [OF "1.prems"] by (intro extract_sentence_eq) auto
    then have "P (extract_sentence i x)"
      using assms(2) [OF "1.prems", of "knowledge (fst x) ! i"] True by simp
    then show ?thesis
      using "1.IH" [OF True] True by (subst extract_loop.simps) simp
  next
    case False
    then show ?thesis using "1.prems" by (subst extract_loop.simps) simp
  qed
qed

lemma consistent_extract_loop:
  "consistent M (fst x) \<Longrightarrow> consistent M (fst (extract_loop i x))"
  by (rule extract_loop_rule [where P = "\<lambda>y. consistent M (fst y)"])
     (auto simp: consistent_resolve_sentence consistent_finite)

lemma hygienic_extract_loop:
  "hygienic (fst x) \<Longrightarrow> hygienic (fst (extract_loop i x))"
  by (rule extract_loop_rule [where P = "\<lambda>y. hygienic (fst y)"])
     (auto simp: hygienic_resolve_sentence hygienic_finite)

section \<open>Invariant rules for the loops that may not end\<close>

lemma subsume_inner_rule:
  assumes "subsume_inner s1 j x = Some y"
    and "P j x"
    and "\<And>j x. P j x \<Longrightarrow> j < length (fst x) \<Longrightarrow> P (Suc j) (subsume_pair s1 (fst x ! j) x)"
  shows "\<exists>j'. length (fst y) \<le> j' \<and> P j' y"
proof -
  define Q where "Q = (\<lambda>s j x y. s = s1 \<longrightarrow> P j x \<longrightarrow> (\<exists>j'. length (fst y) \<le> j' \<and> P j' y))"
  have "Q s1 j x y"
  proof (rule subsume_inner.raw_induct [where P = Q and xa = "((s1, j), x)" and y = y, simplified])
    fix f s' j x y
    assume IH: "\<And>s j x y. f s j x = Some y \<Longrightarrow> Q s j x y"
      and eq: "(if j < length (fst x) then f s' (Suc j) (subsume_pair s' (fst x ! j) x) else Some x) = Some y"
    show "Q s' j x y"
    proof (cases "j < length (fst x)")
      case True
      then have "Q s' (Suc j) (subsume_pair s' (fst x ! j) x) y" using IH eq by simp
      then show ?thesis using assms(3) True unfolding Q_def by blast
    next
      case False
      then have "y = x" using eq by simp
      then show ?thesis using False unfolding Q_def by (metis not_less)
    qed
  next
    show "subsume_inner s1 j x = Some y" by fact
  qed
  then show ?thesis using assms(2) unfolding Q_def by blast
qed

lemma subsume_outer_rule:
  assumes "subsume_outer i x = Some y"
    and "P i x"
    and "\<And>i x x'. P i x \<Longrightarrow> i < length (fst x) \<Longrightarrow>
           subsume_inner (fst x ! i) 0 x = Some x' \<Longrightarrow> P (Suc i) x'"
  shows "\<exists>i'. length (fst y) \<le> i' \<and> P i' y"
proof -
  define Q where "Q = (\<lambda>i x y. P i x \<longrightarrow> (\<exists>i'. length (fst y) \<le> i' \<and> P i' y))"
  have "Q i x y"
  proof (rule subsume_outer.raw_induct [where P = Q and xa = "(i, x)" and y = y, simplified])
    fix f i x y
    assume IH: "\<And>i x y. f i x = Some y \<Longrightarrow> Q i x y"
      and eq: "(if i < length (fst x)
                then case subsume_inner (fst x ! i) 0 x of None \<Rightarrow> None | Some x' \<Rightarrow> f (Suc i) x'
                else Some x) = Some y"
    show "Q i x y"
    proof (cases "i < length (fst x)")
      case True
      then obtain x' where x': "subsume_inner (fst x ! i) 0 x = Some x'" "f (Suc i) x' = Some y"
        using eq by (auto split: option.splits)
      then have "Q (Suc i) x' y" using IH by simp
      then show ?thesis using assms(3) True x'(1) unfolding Q_def by blast
    next
      case False
      then have "y = x" using eq by simp
      then show ?thesis using False unfolding Q_def by (metis not_less)
    qed
  next
    show "subsume_outer i x = Some y" by fact
  qed
  then show ?thesis using assms(2) unfolding Q_def by blast
qed

lemma update_knowledge_rule:
  assumes "update_knowledge st = Some fin"
    and "P st"
    and "\<And>st x. P st \<Longrightarrow> inference_round st = Some x \<Longrightarrow> snd x \<Longrightarrow> P (fst x)"
  shows "\<exists>st'. P st' \<and> inference_round st' = Some (fin, False)"
proof -
  define Q where "Q = (\<lambda>st fin. P st \<longrightarrow> (\<exists>st'. P st' \<and> inference_round st' = Some (fin, False)))"
  have "Q st fin"
  proof (rule update_knowledge.raw_induct [where P = Q])
    fix f st fin
    assume IH: "\<And>st fin. f st = Some fin \<Longrightarrow> Q st fin"
      and eq: "(case inference_round st of None \<Rightarrow> None
                | Some x \<Rightarrow> if snd x then f (fst x) else Some (fst x)) = Some fin"
    from eq obtain x where x: "inference_round st = Some x"
      "(if snd x then f (fst x) else Some (fst x)) = Some fin"
      by (auto split: option.splits)
    show "Q st fin"
    proof (cases "snd x")
      case True
      then have "Q (fst x) fin" using IH x(2) by simp
      then show ?thesis using assms(3) x(1) True unfolding Q_def by blast
    next
      case False
      then have "x = (fin, False)" using x(2) by (cases x) simp
      then show ?thesis using x(1) unfolding Q_def by auto
    qed
  next
    show "update_knowledge st = Some fin" by fact
  qed
  then show ?thesis using assms(2) unfolding Q_def by blast
qed

section \<open>The subsumption pass\<close>

lemma subsume_pair_cases:
  "subsume_pair s1 s2 x = x \<or>
   (s1 \<noteq> s2 \<and> cells s1 \<subseteq> cells s2 \<and> subsume_candidate s1 s2 \<notin> set (fst x) \<and>
    cells (subsume_candidate s1 s2) \<noteq> {} \<and>
    subsume_pair s1 s2 x = (fst x @ [subsume_candidate s1 s2], True))"
  by (cases x) (simp add: subsume_pair_def Let_def)

lemma subsume_pair_unchanged_iff:
  "subsume_pair s1 s2 x = x \<longleftrightarrow>
   \<not> (s1 \<noteq> s2 \<and> cells s1 \<subseteq> cells s2 \<and> subsume_candidate s1 s2 \<notin> set (fst x) \<and>
      cells (subsume_candidate s1 s2) \<noteq> {})"
  by (cases x) (auto simp: subsume_pair_def Let_def)

lemma subsume_pair_set_mono: "set (fst x) \<subseteq> set (fst (subsume_pair s1 s2 x))"
  using subsume_pair_cases [of s1 s2 x] by auto

lemma subsume_pair_flag: "snd x \<Longrightarrow> snd (subsume_pair s1 s2 x)"
  using subsume_pair_cases [of s1 s2 x] by auto

lemma subsume_pair_nth:
  "k < length (fst x) \<Longrightarrow> fst (subsume_pair s1 s2 x) ! k = fst x ! k"
  using subsume_pair_cases [of s1 s2 x] by (auto simp: nth_append)

lemma subsume_pair_length: "length (fst x) \<le> length (fst (subsume_pair s1 s2 x))"
  using subsume_pair_cases [of s1 s2 x] by auto

text \<open>An invariant kept by every pair step is kept by both loops.\<close>

lemma subsume_inner_pairs_rule:
  assumes "subsume_inner s1 j x = Some y" "Q x" "s1 \<in> set (fst x)"
    and "\<And>x s2. Q x \<Longrightarrow> s1 \<in> set (fst x) \<Longrightarrow> s2 \<in> set (fst x) \<Longrightarrow> Q (subsume_pair s1 s2 x)"
  shows "Q y \<and> set (fst x) \<subseteq> set (fst y)"
proof -
  have "\<exists>j'. length (fst y) \<le> j' \<and> (Q y \<and> set (fst x) \<subseteq> set (fst y))"
  proof (rule subsume_inner_rule [OF assms(1), where P = "\<lambda>j z. Q z \<and> set (fst x) \<subseteq> set (fst z)"])
    show "Q x \<and> set (fst x) \<subseteq> set (fst x)" using assms(2) by simp
  next
    fix j z assume a: "Q z \<and> set (fst x) \<subseteq> set (fst z)" "j < length (fst z)"
    have "Q (subsume_pair s1 (fst z ! j) z)"
      using a assms(3) by (intro assms(4)) auto
    moreover have "set (fst x) \<subseteq> set (fst (subsume_pair s1 (fst z ! j) z))"
      using a(1) subsume_pair_set_mono [of z s1 "fst z ! j"] by blast
    ultimately show "Q (subsume_pair s1 (fst z ! j) z) \<and> set (fst x) \<subseteq> set (fst (subsume_pair s1 (fst z ! j) z))"
      by simp
  qed
  then show ?thesis by blast
qed

lemma subsume_outer_pairs_rule:
  assumes "subsume_outer i x = Some y" "Q x"
    and "\<And>x s1 s2. Q x \<Longrightarrow> s1 \<in> set (fst x) \<Longrightarrow> s2 \<in> set (fst x) \<Longrightarrow> Q (subsume_pair s1 s2 x)"
  shows "Q y"
proof -
  have "\<exists>i'. length (fst y) \<le> i' \<and> Q y"
  proof (rule subsume_outer_rule [OF assms(1), where P = "\<lambda>i z. Q z"])
    show "Q x" by fact
  next
    fix i z z' assume a: "Q z" "i < length (fst z)" "subsume_inner (fst z ! i) 0 z = Some z'"
    show "Q z'"
      using subsume_inner_pairs_rule [OF a(3), where Q = Q] a(1,2) assms(3) by simp
  qed
  then show ?thesis by blast
qed

text \<open>What a pass of the two loops does to the list and the flag.\<close>

lemma subsume_outer_extends:
  assumes "subsume_outer i x = Some y"
  shows "\<exists>new. fst y = fst x @ new \<and> (snd y \<longleftrightarrow> snd x \<or> new \<noteq> []) \<and>
           distinct new \<and> set new \<inter> set (fst x) = {} \<and>
           (\<forall>s \<in> set new. cells s \<noteq> {} \<and>
              (\<exists>a \<in> set (fst y). \<exists>b \<in> set (fst y).
                  a \<noteq> b \<and> cells a \<subseteq> cells b \<and> s = subsume_candidate a b))"
proof (rule subsume_outer_pairs_rule [OF assms])
  show "\<exists>new. fst x = fst x @ new \<and> (snd x \<longleftrightarrow> snd x \<or> new \<noteq> []) \<and>
           distinct new \<and> set new \<inter> set (fst x) = {} \<and>
           (\<forall>s \<in> set new. cells s \<noteq> {} \<and>
              (\<exists>a \<in> set (fst x). \<exists>b \<in> set (fst x).
                  a \<noteq> b \<and> cells a \<subseteq> cells b \<and> s = subsume_candidate a b))"
    by (intro exI [of _ "[]"]) simp
next
  fix z s1 s2
  assume "\<exists>new. fst z = fst x @ new \<and> (snd z \<longleftrightarrow> snd x \<or> new \<noteq> []) \<and>
           distinct new \<and> set new \<inter> set (fst x) = {} \<and>
           (\<forall>s \<in> set new. cells s \<noteq> {} \<and>
              (\<exists>a \<in> set (fst z). \<exists>b \<in> set (fst z).
                  a \<noteq> b \<and> cells a \<subseteq> cells b \<and> s = subsume_candidate a b))"
    and mem: "s1 \<in> set (fst z)" "s2 \<in> set (fst z)"
  then obtain new where new: "fst z = fst x @ new" "snd z \<longleftrightarrow> snd x \<or> new \<noteq> []"
    "distinct new" "set new \<inter> set (fst x) = {}"
    "\<forall>s \<in> set new. cells s \<noteq> {} \<and>
              (\<exists>a \<in> set (fst z). \<exists>b \<in> set (fst z).
                  a \<noteq> b \<and> cells a \<subseteq> cells b \<and> s = subsume_candidate a b)"
    by blast
  let ?z' = "subsume_pair s1 s2 z"
  let ?goal = "\<exists>new. fst ?z' = fst x @ new \<and> (snd ?z' \<longleftrightarrow> snd x \<or> new \<noteq> []) \<and>
           distinct new \<and> set new \<inter> set (fst x) = {} \<and>
           (\<forall>s \<in> set new. cells s \<noteq> {} \<and>
              (\<exists>a \<in> set (fst ?z'). \<exists>b \<in> set (fst ?z').
                  a \<noteq> b \<and> cells a \<subseteq> cells b \<and> s = subsume_candidate a b))"
  from subsume_pair_cases [of s1 s2 z] show ?goal
  proof
    assume "?z' = z"
    then show ?goal using new by auto
  next
    assume app: "s1 \<noteq> s2 \<and> cells s1 \<subseteq> cells s2 \<and> subsume_candidate s1 s2 \<notin> set (fst z) \<and>
       cells (subsume_candidate s1 s2) \<noteq> {} \<and> ?z' = (fst z @ [subsume_candidate s1 s2], True)"
    let ?c = "subsume_candidate s1 s2"
    have "fst ?z' = fst x @ (new @ [?c])" using app new(1) by simp
    moreover have "snd ?z' \<longleftrightarrow> snd x \<or> new @ [?c] \<noteq> []" using app by simp
    moreover have "distinct (new @ [?c])" using app new(1,3) by auto
    moreover have "set (new @ [?c]) \<inter> set (fst x) = {}" using app new(1,4) by auto
    moreover have "\<forall>s \<in> set (new @ [?c]). cells s \<noteq> {} \<and>
              (\<exists>a \<in> set (fst ?z'). \<exists>b \<in> set (fst ?z').
                  a \<noteq> b \<and> cells a \<subseteq> cells b \<and> s = subsume_candidate a b)"
    proof
      fix s assume "s \<in> set (new @ [?c])"
      then consider "s \<in> set new" | "s = ?c" by auto
      then show "cells s \<noteq> {} \<and>
              (\<exists>a \<in> set (fst ?z'). \<exists>b \<in> set (fst ?z').
                  a \<noteq> b \<and> cells a \<subseteq> cells b \<and> s = subsume_candidate a b)"
      proof cases
        case 1
        then show ?thesis using new(5) subsume_pair_set_mono [of z s1 s2] by blast
      next
        case 2
        then show ?thesis using app mem subsume_pair_set_mono [of z s1 s2] by blast
      qed
    qed
    ultimately show ?goal by blast
  qed
qed

lemma subsume_pair_flag_False:
  "\<not> snd (subsume_pair s1 s2 x) \<Longrightarrow> subsume_pair s1 s2 x = x"
  using subsume_pair_cases [of s1 s2 x] by auto

lemma subsume_inner_no_change:
  assumes "subsume_inner s1 j x = Some y" "\<not> snd y"
  shows "y = x \<and> (\<forall>k. j \<le> k \<and> k < length (fst x) \<longrightarrow> subsume_pair s1 (fst x ! k) x = x)"
proof -
  let ?P = "\<lambda>j' z. snd z \<or> (z = x \<and> (\<forall>k. j \<le> k \<and> k < j' \<longrightarrow> subsume_pair s1 (fst x ! k) x = x))"
  have "\<exists>j'. length (fst y) \<le> j' \<and> ?P j' y"
  proof (rule subsume_inner_rule [OF assms(1), where P = ?P])
    show "?P j x" by auto
  next
    fix j' z assume a: "?P j' z" "j' < length (fst z)"
    show "?P (Suc j') (subsume_pair s1 (fst z ! j') z)"
    proof (cases "snd (subsume_pair s1 (fst z ! j') z)")
      case True
      then show ?thesis by simp
    next
      case False
      then have same: "subsume_pair s1 (fst z ! j') z = z" by (rule subsume_pair_flag_False)
      then have "\<not> snd z" using False by simp
      then have z: "z = x" "\<forall>k. j \<le> k \<and> k < j' \<longrightarrow> subsume_pair s1 (fst x ! k) x = x"
        using a(1) by auto
      have "\<forall>k. j \<le> k \<and> k < Suc j' \<longrightarrow> subsume_pair s1 (fst x ! k) x = x"
        using z same by (auto simp: less_Suc_eq)
      then show ?thesis using same z(1) by simp
    qed
  qed
  then show ?thesis using assms(2) by auto
qed

lemma subsume_inner_flag:
  assumes "subsume_inner s1 j x = Some y" "snd x"
  shows "snd y"
  using subsume_inner_rule [OF assms(1), where P = "\<lambda>j z. snd z"] assms(2) subsume_pair_flag
  by blast

lemma subsume_outer_no_change:
  assumes "subsume_outer i x = Some y" "\<not> snd y"
  shows "y = x \<and> (\<forall>k l. i \<le> k \<and> k < length (fst x) \<and> l < length (fst x) \<longrightarrow>
                     subsume_pair (fst x ! k) (fst x ! l) x = x)"
proof -
  let ?P = "\<lambda>i' z. snd z \<or> (z = x \<and> (\<forall>k l. i \<le> k \<and> k < i' \<and> l < length (fst x) \<longrightarrow>
                     subsume_pair (fst x ! k) (fst x ! l) x = x))"
  have "\<exists>i'. length (fst y) \<le> i' \<and> ?P i' y"
  proof (rule subsume_outer_rule [OF assms(1), where P = ?P])
    show "?P i x" by auto
  next
    fix i' z z' assume a: "?P i' z" "i' < length (fst z)" "subsume_inner (fst z ! i') 0 z = Some z'"
    show "?P (Suc i') z'"
    proof (cases "snd z'")
      case True
      then show ?thesis by simp
    next
      case False
      from subsume_inner_no_change [OF a(3) False]
      have same: "z' = z" "\<forall>k. k < length (fst z) \<longrightarrow> subsume_pair (fst z ! i') (fst z ! k) z = z"
        by auto
      then have "\<not> snd z" using False by simp
      then have z: "z = x" "\<forall>k l. i \<le> k \<and> k < i' \<and> l < length (fst x) \<longrightarrow>
                     subsume_pair (fst x ! k) (fst x ! l) x = x"
        using a(1) by auto
      have "\<forall>k l. i \<le> k \<and> k < Suc i' \<and> l < length (fst x) \<longrightarrow>
                     subsume_pair (fst x ! k) (fst x ! l) x = x"
        using z same by (auto simp: less_Suc_eq)
      then show ?thesis using same z(1) by simp
    qed
  qed
  then show ?thesis using assms(2) by auto
qed

text \<open>A pass from index 0 that leaves the flag unset has visited every ordered pair.\<close>

lemma subsume_outer_closed:
  assumes "subsume_outer 0 x = Some y" "\<not> snd y"
  shows "y = x \<and> (\<forall>a \<in> set (fst x). \<forall>b \<in> set (fst x).
            a \<noteq> b \<and> cells a \<subseteq> cells b \<and> cells (subsume_candidate a b) \<noteq> {}
              \<longrightarrow> subsume_candidate a b \<in> set (fst x))"
proof -
  from subsume_outer_no_change [OF assms]
  have same: "y = x" and all: "\<And>k l. k < length (fst x) \<Longrightarrow> l < length (fst x) \<Longrightarrow>
                     subsume_pair (fst x ! k) (fst x ! l) x = x"
    by auto
  have "subsume_candidate a b \<in> set (fst x)"
    if ab: "a \<in> set (fst x)" "b \<in> set (fst x)" and cond: "a \<noteq> b" "cells a \<subseteq> cells b"
      "cells (subsume_candidate a b) \<noteq> {}" for a b
  proof -
    obtain k l where "k < length (fst x)" "fst x ! k = a" "l < length (fst x)" "fst x ! l = b"
      using ab by (metis in_set_conv_nth)
    then have "subsume_pair a b x = x" using all by blast
    then show ?thesis using cond by (simp add: subsume_pair_unchanged_iff)
  qed
  then show ?thesis using same by blast
qed

text \<open>Termination of the two loops inside a finite set of sentences closed under subsumption.\<close>

lemma potential_append:
  assumes "finite V" "s \<in> V" "s \<notin> set kn"
  shows "potential V (kn @ [s]) = potential V kn"
proof -
  have "V - set (kn @ [s]) = (V - set kn) - {s}" by auto
  moreover have "s \<in> V - set kn" using assms by simp
  moreover have "finite (V - set kn)" using assms by simp
  ultimately have "card (V - set (kn @ [s])) = card (V - set kn) - 1" by simp
  moreover have "card (V - set kn) > 0"
    using \<open>s \<in> V - set kn\<close> \<open>finite (V - set kn)\<close> by (metis card_gt_0_iff empty_iff)
  ultimately show ?thesis by (simp add: potential_def)
qed

lemma subsume_pair_potential:
  assumes "finite V" "subsume_closed V" "set (fst x) \<subseteq> V" "s1 \<in> V" "s2 \<in> V"
  shows "set (fst (subsume_pair s1 s2 x)) \<subseteq> V \<and>
         potential V (fst (subsume_pair s1 s2 x)) = potential V (fst x)"
  using subsume_pair_cases [of s1 s2 x]
proof
  assume "subsume_pair s1 s2 x = x"
  then show ?thesis using assms(3) by simp
next
  assume a: "s1 \<noteq> s2 \<and> cells s1 \<subseteq> cells s2 \<and> subsume_candidate s1 s2 \<notin> set (fst x) \<and>
    cells (subsume_candidate s1 s2) \<noteq> {} \<and>
    subsume_pair s1 s2 x = (fst x @ [subsume_candidate s1 s2], True)"
  then have "subsume_candidate s1 s2 \<in> V" using assms(2,4,5) unfolding subsume_closed_def by blast
  then show ?thesis using a assms(1,3) by (simp add: potential_append)
qed

lemma subsume_inner_terminates:
  assumes "finite V" "subsume_closed V" "s1 \<in> V"
  shows "set (fst x) \<subseteq> V \<Longrightarrow>
         \<exists>y. subsume_inner s1 j x = Some y \<and> set (fst y) \<subseteq> V \<and>
              potential V (fst y) = potential V (fst x)"
proof (induction "potential V (fst x) - j" arbitrary: x j rule: less_induct)
  case less
  show ?case
  proof (cases "j < length (fst x)")
    case True
    let ?x' = "subsume_pair s1 (fst x ! j) x"
    have mem: "fst x ! j \<in> V" using True less.prems by auto
    have x': "set (fst ?x') \<subseteq> V" "potential V (fst ?x') = potential V (fst x)"
      using subsume_pair_potential [OF assms(1,2) less.prems assms(3) mem] by auto
    have "j < potential V (fst x)" using True by (simp add: potential_def)
    then have "potential V (fst ?x') - Suc j < potential V (fst x) - j" using x'(2) by simp
    from less.hyps [OF this x'(1)] obtain y where
      "subsume_inner s1 (Suc j) ?x' = Some y" "set (fst y) \<subseteq> V"
      "potential V (fst y) = potential V (fst ?x')" by blast
    then show ?thesis using True x'(2) by (subst subsume_inner.simps) simp
  next
    case False
    then show ?thesis using less.prems by (subst subsume_inner.simps) simp
  qed
qed

lemma subsume_outer_terminates:
  assumes "finite V" "subsume_closed V"
  shows "set (fst x) \<subseteq> V \<Longrightarrow> \<exists>y. subsume_outer i x = Some y"
proof (induction "potential V (fst x) - i" arbitrary: x i rule: less_induct)
  case less
  show ?case
  proof (cases "i < length (fst x)")
    case True
    have mem: "fst x ! i \<in> V" using True less.prems by auto
    from subsume_inner_terminates [OF assms mem less.prems, of 0]
    obtain x' where x': "subsume_inner (fst x ! i) 0 x = Some x'" "set (fst x') \<subseteq> V"
      "potential V (fst x') = potential V (fst x)" by blast
    have "i < potential V (fst x)" using True by (simp add: potential_def)
    then have "potential V (fst x') - Suc i < potential V (fst x) - i" using x'(3) by simp
    from less.hyps [OF this x'(2)] obtain y where "subsume_outer (Suc i) x' = Some y" by blast
    then show ?thesis using True x'(1) by (subst subsume_outer.simps) simp
  next
    case False
    then show ?thesis by (subst subsume_outer.simps) simp
  qed
qed

section \<open>Subsumption is sound\<close>

lemma finite_universe:
  assumes "finite B"
  shows "finite (universe M B)"
proof -
  have "universe M B \<subseteq> (\<lambda>C. \<lparr>cells = C, count = int (card (C \<inter> M))\<rparr>) ` Pow B"
  proof
    fix s assume "s \<in> universe M B"
    then have "cells s \<subseteq> B" "count s = int (card (cells s \<inter> M))"
      by (auto simp: universe_def sentence_holds_def)
    then have "s = \<lparr>cells = cells s, count = int (card (cells s \<inter> M))\<rparr>" "cells s \<in> Pow B"
      by auto
    then show "s \<in> (\<lambda>C. \<lparr>cells = C, count = int (card (C \<inter> M))\<rparr>) ` Pow B" by blast
  qed
  then show ?thesis using assms by (meson finite_Pow_iff finite_imageI finite_subset)
qed

lemma subsume_candidate_holds:
  assumes "finite (cells b)" "cells a \<subseteq> cells b" "sentence_holds M a" "sentence_holds M b"
  shows "sentence_holds M (subsume_candidate a b)"
proof -
  have "cells b \<inter> M = (cells a \<inter> M) \<union> ((cells b - cells a) \<inter> M)" using assms(2) by auto
  moreover have "(cells a \<inter> M) \<inter> ((cells b - cells a) \<inter> M) = {}" by auto
  moreover have "finite (cells a \<inter> M)" "finite ((cells b - cells a) \<inter> M)"
    using assms(1,2) by (auto intro: finite_subset)
  ultimately have "card (cells b \<inter> M) = card (cells a \<inter> M) + card ((cells b - cells a) \<inter> M)"
    by (metis card_Un_disjoint)
  then show ?thesis using assms(3,4) by (simp add: sentence_holds_def subsume_candidate_def)
qed

lemma subsume_closed_universe:
  assumes "finite B"
  shows "subsume_closed (universe M B)"
  unfolding subsume_closed_def
proof (intro ballI impI)
  fix a b assume ab: "a \<in> universe M B" "b \<in> universe M B"
    and c: "cells a \<subseteq> cells b \<and> cells (subsume_candidate a b) \<noteq> {}"
  have "finite (cells b)" using ab(2) assms by (auto simp: universe_def intro: finite_subset)
  then have "sentence_holds M (subsume_candidate a b)"
    using ab c by (intro subsume_candidate_holds) (auto simp: universe_def)
  moreover have "cells (subsume_candidate a b) \<subseteq> B"
    using ab(2) by (auto simp: universe_def subsume_candidate_def)
  ultimately show "subsume_candidate a b \<in> universe M B" by (simp add: universe_def)
qed

lemma consistent_drop_empty: "consistent M st \<Longrightarrow> consistent M (drop_empty st)"
  by (simp add: consistent_def drop_empty_def)

lemma hygienic_drop_empty: "hygienic st \<Longrightarrow> hygienic (drop_empty st)"
  by (simp add: hygienic_def drop_empty_def)

lemma subsume_pair_new:
  "s \<in> set (fst (subsume_pair s1 s2 x)) \<Longrightarrow>
   s \<in> set (fst x) \<or> (s = subsume_candidate s1 s2 \<and> s1 \<noteq> s2 \<and> cells s1 \<subseteq> cells s2 \<and> cells s \<noteq> {})"
  using subsume_pair_cases [of s1 s2 x] by auto

lemma subsume_outer_holds:
  assumes "subsume_outer i x = Some y"
    and "\<forall>s \<in> set (fst x). finite (cells s) \<and> sentence_holds M s"
  shows "\<forall>s \<in> set (fst y). finite (cells s) \<and> sentence_holds M s"
proof (rule subsume_outer_pairs_rule [OF assms(1), where Q = "\<lambda>z. \<forall>s \<in> set (fst z). finite (cells s) \<and> sentence_holds M s"])
  show "\<forall>s \<in> set (fst x). finite (cells s) \<and> sentence_holds M s" by fact
next
  fix z :: "sentence list \<times> bool" and s1 s2
  assume a: "\<forall>s \<in> set (fst z). finite (cells s) \<and> sentence_holds M s"
    "s1 \<in> set (fst z)" "s2 \<in> set (fst z)"
  show "\<forall>s \<in> set (fst (subsume_pair s1 s2 z)). finite (cells s) \<and> sentence_holds M s"
  proof
    fix s assume "s \<in> set (fst (subsume_pair s1 s2 z))"
    from subsume_pair_new [OF this] show "finite (cells s) \<and> sentence_holds M s"
    proof
      assume "s \<in> set (fst z)" then show ?thesis using a(1) by simp
    next
      assume c: "s = subsume_candidate s1 s2 \<and> s1 \<noteq> s2 \<and> cells s1 \<subseteq> cells s2 \<and> cells s \<noteq> {}"
      then have "sentence_holds M s" using a by (auto intro: subsume_candidate_holds)
      moreover have "finite (cells s)" using c a by (simp add: subsume_candidate_def)
      ultimately show ?thesis by simp
    qed
  qed
qed

lemma subsume_outer_cells:
  assumes "subsume_outer i x = Some y"
  shows "\<forall>s \<in> set (fst y). \<exists>b \<in> set (fst x). cells s \<subseteq> cells b \<and> (cells b = {} \<longrightarrow> s = b)"
proof (rule subsume_outer_pairs_rule [OF assms(1), where Q = "\<lambda>z. \<forall>s \<in> set (fst z). \<exists>b \<in> set (fst x). cells s \<subseteq> cells b \<and> (cells b = {} \<longrightarrow> s = b)"])
  show "\<forall>s \<in> set (fst x). \<exists>b \<in> set (fst x). cells s \<subseteq> cells b \<and> (cells b = {} \<longrightarrow> s = b)" by auto
next
  fix z :: "sentence list \<times> bool" and s1 s2
  assume a: "\<forall>s \<in> set (fst z). \<exists>b \<in> set (fst x). cells s \<subseteq> cells b \<and> (cells b = {} \<longrightarrow> s = b)"
    "s1 \<in> set (fst z)" "s2 \<in> set (fst z)"
  show "\<forall>s \<in> set (fst (subsume_pair s1 s2 z)). \<exists>b \<in> set (fst x). cells s \<subseteq> cells b \<and> (cells b = {} \<longrightarrow> s = b)"
  proof
    fix s assume "s \<in> set (fst (subsume_pair s1 s2 z))"
    from subsume_pair_new [OF this] show "\<exists>b \<in> set (fst x). cells s \<subseteq> cells b \<and> (cells b = {} \<longrightarrow> s = b)"
    proof
      assume "s \<in> set (fst z)" then show ?thesis using a(1) by simp
    next
      assume c: "s = subsume_candidate s1 s2 \<and> s1 \<noteq> s2 \<and> cells s1 \<subseteq> cells s2 \<and> cells s \<noteq> {}"
      obtain b where b: "b \<in> set (fst x)" "cells s2 \<subseteq> cells b" using a(1,3) by blast
      have "cells s \<subseteq> cells s2" using c by (auto simp: subsume_candidate_def)
      then have "cells s \<subseteq> cells b" "cells b \<noteq> {}" using b c by auto
      then show ?thesis using b(1) by blast
    qed
  qed
qed

text \<open>The fields that a round leaves alone or only extends.\<close>

lemma resolve_sentence_fields:
  "height (fst (resolve_sentence s x)) = height (fst x)"
  "width (fst (resolve_sentence s x)) = width (fst x)"
  "moves_made (fst (resolve_sentence s x)) = moves_made (fst x)"
  "mines (fst x) \<subseteq> mines (fst (resolve_sentence s x))"
  "safes (fst x) \<subseteq> safes (fst (resolve_sentence s x))"
  by (auto simp: resolve_sentence_def resolve_safe_def resolve_mine_def)

section \<open>One round of the fixpoint procedure\<close>

lemma extract_loop_fields:
  assumes "\<forall>s \<in> set (knowledge (fst x)). finite (cells s)"
  shows "height (fst (extract_loop i x)) = height (fst x) \<and>
         width (fst (extract_loop i x)) = width (fst x) \<and>
         moves_made (fst (extract_loop i x)) = moves_made (fst x) \<and>
         mines (fst x) \<subseteq> mines (fst (extract_loop i x)) \<and>
         safes (fst x) \<subseteq> safes (fst (extract_loop i x)) \<and>
         (\<forall>s \<in> set (knowledge (fst (extract_loop i x))). finite (cells s))"
proof -
  let ?P = "\<lambda>y :: minesweeper_ai \<times> bool. height (fst y) = height (fst x) \<and>
         width (fst y) = width (fst x) \<and>
         moves_made (fst y) = moves_made (fst x) \<and>
         mines (fst x) \<subseteq> mines (fst y) \<and>
         safes (fst x) \<subseteq> safes (fst y) \<and>
         (\<forall>s \<in> set (knowledge (fst y)). finite (cells s))"
  have "?P (extract_loop i x)"
  proof (rule extract_loop_rule [where P = ?P])
    show "?P x" using assms by simp
  next
    fix y :: "minesweeper_ai \<times> bool" and s
    assume a: "?P y"
    have "\<forall>s' \<in> set (knowledge (fst (resolve_sentence s y))). finite (cells s')"
      using a by (auto simp: resolve_sentence_def resolve_safe_def resolve_mine_def
          mark_all_safe_def mark_all_mine_def)
    then show "?P (resolve_sentence s y)"
      using a resolve_sentence_fields [where s = s and x = y] by auto
  qed auto
  then show ?thesis .
qed

lemma extract_sentence_flag: "snd x \<Longrightarrow> snd (extract_sentence i x)"
  by (cases x) (simp add: extract_sentence_def Let_def split: prod.splits)

lemma extract_sentence_unchanged:
  assumes "\<not> snd (extract_sentence i x)"
  shows "extract_sentence i x = x \<and> known_safes (knowledge (fst x) ! i) = {} \<and>
         known_mines (knowledge (fst x) ! i) = {}"
  using assms by (cases x) (auto simp: extract_sentence_def Let_def split: prod.splits if_splits)

lemma extract_loop_unchanged:
  "\<not> snd (extract_loop i x) \<Longrightarrow>
   extract_loop i x = x \<and>
   (\<forall>k. i \<le> k \<and> k < length (knowledge (fst x)) \<longrightarrow>
        known_safes (knowledge (fst x) ! k) = {} \<and> known_mines (knowledge (fst x) ! k) = {})"
proof (induction i x rule: extract_loop.induct)
  case (1 i x)
  show ?case
  proof (cases "i < length (knowledge (fst x))")
    case True
    then have eq: "extract_loop i x = extract_loop (Suc i) (extract_sentence i x)"
      by (subst extract_loop.simps) simp
    with 1 True have IH: "extract_loop (Suc i) (extract_sentence i x) = extract_sentence i x"
      "\<forall>k. Suc i \<le> k \<and> k < length (knowledge (fst (extract_sentence i x))) \<longrightarrow>
        known_safes (knowledge (fst (extract_sentence i x)) ! k) = {} \<and>
        known_mines (knowledge (fst (extract_sentence i x)) ! k) = {}"
      by auto
    have "\<not> snd (extract_sentence i x)" using "1.prems" eq IH(1) by simp
    from extract_sentence_unchanged [OF this]
    have u: "extract_sentence i x = x" "known_safes (knowledge (fst x) ! i) = {}"
      "known_mines (knowledge (fst x) ! i) = {}" by auto
    have "\<forall>k. i \<le> k \<and> k < length (knowledge (fst x)) \<longrightarrow>
        known_safes (knowledge (fst x) ! k) = {} \<and> known_mines (knowledge (fst x) ! k) = {}"
    proof (intro allI impI)
      fix k assume "i \<le> k \<and> k < length (knowledge (fst x))"
      then consider "k = i" | "Suc i \<le> k \<and> k < length (knowledge (fst x))" by linarith
      then show "known_safes (knowledge (fst x) ! k) = {} \<and> known_mines (knowledge (fst x) ! k) = {}"
        using u IH(2) by cases auto
    qed
    then show ?thesis using eq IH(1) u(1) by simp
  next
    case False
    then show ?thesis by (subst extract_loop.simps) auto
  qed
qed

lemma inference_round_parts:
  assumes "inference_round st = Some x"
  obtains x1 st2 x2 where
    "x1 = extract_loop 0 (st, False)" "st2 = drop_empty (fst x1)"
    "subsume_outer 0 (knowledge st2, snd x1) = Some x2"
    "x = (st2\<lparr>knowledge := fst x2\<rparr>, snd x2)"
  using assms unfolding inference_round_def Let_def by (auto split: option.splits)

lemma inference_round_consistent:
  assumes "consistent M st" "inference_round st = Some x"
  shows "consistent M (fst x)"
proof -
  from assms(2) obtain x1 st2 x2 where p:
    "x1 = extract_loop 0 (st, False)" "st2 = drop_empty (fst x1)"
    "subsume_outer 0 (knowledge st2, snd x1) = Some x2"
    "x = (st2\<lparr>knowledge := fst x2\<rparr>, snd x2)"
    by (rule inference_round_parts)
  have c2: "consistent M st2"
    using assms(1) p(1,2) consistent_extract_loop [of M "(st, False)" 0]
    by (simp add: consistent_drop_empty)
  then have "\<forall>s \<in> set (fst x2). finite (cells s) \<and> sentence_holds M s"
    using subsume_outer_holds [OF p(3), of M] by (simp add: consistent_def)
  then show ?thesis using c2 p(4) by (simp add: consistent_def)
qed

lemma inference_round_hygienic:
  assumes "hygienic st" "inference_round st = Some x"
  shows "hygienic (fst x)"
proof -
  from assms(2) obtain x1 st2 x2 where p:
    "x1 = extract_loop 0 (st, False)" "st2 = drop_empty (fst x1)"
    "subsume_outer 0 (knowledge st2, snd x1) = Some x2"
    "x = (st2\<lparr>knowledge := fst x2\<rparr>, snd x2)"
    by (rule inference_round_parts)
  have c2: "hygienic st2"
    using assms(1) p(1,2) hygienic_extract_loop [of "(st, False)" 0]
    by (simp add: hygienic_drop_empty)
  have "\<forall>s \<in> set (fst x2). \<exists>b \<in> set (knowledge st2). cells s \<subseteq> cells b"
    using subsume_outer_cells [OF p(3)] by auto
  then show ?thesis using c2 p(4) unfolding hygienic_def by fastforce
qed

lemma inference_round_fields:
  assumes "\<forall>s \<in> set (knowledge st). finite (cells s)" "inference_round st = Some x"
  shows "height (fst x) = height st \<and> width (fst x) = width st \<and>
         moves_made (fst x) = moves_made st \<and> mines st \<subseteq> mines (fst x) \<and>
         safes st \<subseteq> safes (fst x)"
proof -
  from assms(2) obtain x1 st2 x2 where p:
    "x1 = extract_loop 0 (st, False)" "st2 = drop_empty (fst x1)"
    "subsume_outer 0 (knowledge st2, snd x1) = Some x2"
    "x = (st2\<lparr>knowledge := fst x2\<rparr>, snd x2)"
    by (rule inference_round_parts)
  show ?thesis
    using extract_loop_fields [of "(st, False)" 0] assms(1) p(1,2,4)
    by (simp add: drop_empty_def)
qed

lemma inference_round_terminates:
  assumes "consistent M st" "hygienic st"
  shows "\<exists>x. inference_round st = Some x"
proof -
  let ?x1 = "extract_loop 0 (st, False)"
  let ?st2 = "drop_empty (fst ?x1)"
  let ?V = "universe M (board (height ?st2) (width ?st2))"
  have "consistent M ?st2" "hygienic ?st2"
    using assms consistent_extract_loop [of M "(st, False)" 0] hygienic_extract_loop [of "(st, False)" 0]
    by (simp_all add: consistent_drop_empty hygienic_drop_empty)
  then have "set (knowledge ?st2) \<subseteq> ?V"
    by (auto simp: universe_def consistent_def hygienic_def)
  then obtain y where "subsume_outer 0 (knowledge ?st2, snd ?x1) = Some y"
    using subsume_outer_terminates [where V = ?V and x = "(knowledge ?st2, snd ?x1)" and i = 0]
      finite_universe [OF finite_board] subsume_closed_universe [OF finite_board]
    by auto
  then show ?thesis by (simp add: inference_round_def Let_def)
qed

section \<open>The whole fixpoint procedure\<close>

lemma inference_round_final:
  assumes "inference_round st = Some (fin, False)"
  shows "fin = drop_empty st \<and>
         (\<forall>s \<in> set (knowledge st). known_safes s = {} \<and> known_mines s = {}) \<and>
         (\<forall>a \<in> set (knowledge fin). \<forall>b \<in> set (knowledge fin).
            a \<noteq> b \<and> cells a \<subseteq> cells b \<and> cells (subsume_candidate a b) \<noteq> {}
              \<longrightarrow> subsume_candidate a b \<in> set (knowledge fin))"
proof -
  from assms obtain x1 st2 x2 where p:
    "x1 = extract_loop 0 (st, False)" "st2 = drop_empty (fst x1)"
    "subsume_outer 0 (knowledge st2, snd x1) = Some x2"
    "(fin, False) = (st2\<lparr>knowledge := fst x2\<rparr>, snd x2)"
    by (rule inference_round_parts)
  have nf: "\<not> snd x2" using p(4) by simp
  from subsume_outer_closed [OF p(3) nf]
  have x2: "x2 = (knowledge st2, snd x1)"
    and closed: "\<forall>a \<in> set (knowledge st2). \<forall>b \<in> set (knowledge st2).
            a \<noteq> b \<and> cells a \<subseteq> cells b \<and> cells (subsume_candidate a b) \<noteq> {}
              \<longrightarrow> subsume_candidate a b \<in> set (knowledge st2)"
    by auto
  have fin: "fin = st2" using p(4) x2 by simp
  have "\<not> snd (extract_loop 0 (st, False))" using nf x2 p(1) by simp
  from extract_loop_unchanged [OF this]
  have same: "extract_loop 0 (st, False) = (st, False)"
    and quiet: "\<forall>k. k < length (knowledge st) \<longrightarrow>
        known_safes (knowledge st ! k) = {} \<and> known_mines (knowledge st ! k) = {}"
    by auto
  have "\<forall>s \<in> set (knowledge st). known_safes s = {} \<and> known_mines s = {}"
    using quiet by (metis in_set_conv_nth)
  moreover have "fin = drop_empty st" using fin p(1,2) same by simp
  ultimately show ?thesis using closed fin by simp
qed

lemma update_knowledge_invariant:
  assumes "update_knowledge st = Some fin" "P st"
    and "\<And>st x. P st \<Longrightarrow> inference_round st = Some x \<Longrightarrow> P (fst x)"
  shows "P fin"
proof -
  obtain st' where "P st'" "inference_round st' = Some (fin, False)"
    using update_knowledge_rule [OF assms(1), where P = P] assms(2,3) by blast
  then show ?thesis using assms(3) by fastforce
qed

lemma update_knowledge_last_round:
  assumes "update_knowledge st = Some fin"
  shows "\<exists>st'. inference_round st' = Some (fin, False)"
  using update_knowledge_rule [OF assms, where P = "\<lambda>_. True"] by simp

lemma update_knowledge_consistent:
  "consistent M st \<Longrightarrow> update_knowledge st = Some fin \<Longrightarrow> consistent M fin"
  by (rule update_knowledge_invariant [where P = "consistent M"])
     (auto intro: inference_round_consistent)

lemma update_knowledge_hygienic:
  "hygienic st \<Longrightarrow> update_knowledge st = Some fin \<Longrightarrow> hygienic fin"
  by (rule update_knowledge_invariant [where P = hygienic])
     (auto intro: inference_round_hygienic)

lemma update_knowledge_settled:
  assumes "update_knowledge st = Some fin"
  shows "settled fin"
proof -
  obtain st' where "inference_round st' = Some (fin, False)"
    using update_knowledge_last_round [OF assms] by blast
  from inference_round_final [OF this]
  have f: "fin = drop_empty st'"
    "\<forall>s \<in> set (knowledge st'). known_safes s = {} \<and> known_mines s = {}"
    "\<forall>a \<in> set (knowledge fin). \<forall>b \<in> set (knowledge fin).
        a \<noteq> b \<and> cells a \<subseteq> cells b \<and> cells (subsume_candidate a b) \<noteq> {}
          \<longrightarrow> subsume_candidate a b \<in> set (knowledge fin)"
    by blast+
  have "\<forall>s \<in> set (knowledge fin). cells s \<noteq> {} \<and> known_safes s = {} \<and> known_mines s = {}"
    using f(1,2) by (simp add: drop_empty_def)
  then show ?thesis using f(3) unfolding settled_def by blast
qed

lemma settled_counts:
  "settled st \<Longrightarrow> s \<in> set (knowledge st) \<Longrightarrow>
   cells s \<noteq> {} \<and> count s \<noteq> 0 \<and> count s \<noteq> int (card (cells s))"
  unfolding settled_def known_safes_def known_mines_def by (metis (full_types))

section \<open>Termination in consistent states\<close>

lemma all_cells_resolve_safe: "all_cells (resolve_safe S st) = all_cells st - S"
  by (auto simp: all_cells_def resolve_safe_def mark_all_safe_def)

lemma all_cells_resolve_mine: "all_cells (resolve_mine S st) = all_cells st - S"
  by (auto simp: all_cells_def resolve_mine_def mark_all_mine_def)

lemma all_cells_drop_empty: "all_cells (drop_empty st) = all_cells st"
  by (auto simp: all_cells_def drop_empty_def)

lemma all_cells_resolve_sentence:
  assumes "s \<in> set (knowledge (fst x))"
  shows "all_cells (fst (resolve_sentence s x)) \<subseteq> all_cells (fst x) \<and>
         (resolve_sentence s x = x \<or>
          (snd (resolve_sentence s x) \<and> all_cells (fst (resolve_sentence s x)) \<noteq> all_cells (fst x)))"
proof (cases "cells s = {} \<or> (count s \<noteq> 0 \<and> count s \<noteq> int (card (cells s)))")
  case True
  then have "resolve_sentence s x = x" by (auto simp: resolve_sentence_def)
  then show ?thesis by simp
next
  case False
  then obtain c where c: "c \<in> cells s" by auto
  then have in_all: "c \<in> all_cells (fst x)" using assms by (auto simp: all_cells_def)
  have "snd (resolve_sentence s x)" using False by (auto simp: resolve_sentence_def)
  moreover have "all_cells (fst (resolve_sentence s x)) = all_cells (fst x) - cells s"
    using False by (auto simp: resolve_sentence_def all_cells_resolve_safe all_cells_resolve_mine)
  ultimately show ?thesis using c in_all by auto
qed

lemma extract_loop_all_cells:
  assumes "\<forall>s \<in> set (knowledge st). finite (cells s)"
  shows "all_cells (fst (extract_loop i (st, False))) \<subseteq> all_cells st \<and>
         (if snd (extract_loop i (st, False))
          then all_cells (fst (extract_loop i (st, False))) \<noteq> all_cells st
          else extract_loop i (st, False) = (st, False))"
proof -
  let ?P = "\<lambda>y :: minesweeper_ai \<times> bool.
     (\<forall>s \<in> set (knowledge (fst y)). finite (cells s)) \<and> all_cells (fst y) \<subseteq> all_cells st \<and>
     (if snd y then all_cells (fst y) \<noteq> all_cells st else y = (st, False))"
  have "?P (extract_loop i (st, False))"
  proof (rule extract_loop_rule [where P = ?P])
    show "?P (st, False)" using assms by simp
  next
    fix y :: "minesweeper_ai \<times> bool" and s
    assume a: "?P y" and s: "s \<in> set (knowledge (fst y))"
    have fin: "\<forall>s' \<in> set (knowledge (fst (resolve_sentence s y))). finite (cells s')"
      using a by (auto simp: resolve_sentence_def resolve_safe_def resolve_mine_def
          mark_all_safe_def mark_all_mine_def)
    from all_cells_resolve_sentence [OF s]
    have sub: "all_cells (fst (resolve_sentence s y)) \<subseteq> all_cells (fst y)"
      and alt: "resolve_sentence s y = y \<or>
          (snd (resolve_sentence s y) \<and> all_cells (fst (resolve_sentence s y)) \<noteq> all_cells (fst y))"
      by auto
    from alt show "?P (resolve_sentence s y)"
    proof
      assume "resolve_sentence s y = y" then show ?thesis using a by simp
    next
      assume b: "snd (resolve_sentence s y) \<and> all_cells (fst (resolve_sentence s y)) \<noteq> all_cells (fst y)"
      then have "all_cells (fst (resolve_sentence s y)) \<subset> all_cells (fst y)" using sub by blast
      then have "all_cells (fst (resolve_sentence s y)) \<subset> all_cells st" using a by blast
      then show ?thesis using fin b by auto
    qed
  qed auto
  then show ?thesis by blast
qed

lemma subsume_outer_all_cells:
  assumes "subsume_outer i x = Some y"
  shows "(\<Union>s \<in> set (fst y). cells s) = (\<Union>s \<in> set (fst x). cells s)"
proof
  show "(\<Union>s \<in> set (fst y). cells s) \<subseteq> (\<Union>s \<in> set (fst x). cells s)"
    using subsume_outer_cells [OF assms] by blast
  show "(\<Union>s \<in> set (fst x). cells s) \<subseteq> (\<Union>s \<in> set (fst y). cells s)"
    using subsume_outer_extends [OF assms] by auto
qed

lemma finite_all_cells: "hygienic st \<Longrightarrow> finite (all_cells st)"
proof -
  assume "hygienic st"
  then have "all_cells st \<subseteq> board (height st) (width st)"
    by (auto simp: hygienic_def all_cells_def)
  then show ?thesis using finite_board finite_subset by blast
qed

lemma inference_round_decreases:
  assumes "consistent M st" "hygienic st" "inference_round st = Some x" "snd x"
  shows "(rank M (fst x), rank M st) \<in> less_than <*lex*> less_than"
proof -
  from assms(3) obtain x1 st2 x2 where p:
    "x1 = extract_loop 0 (st, False)" "st2 = drop_empty (fst x1)"
    "subsume_outer 0 (knowledge st2, snd x1) = Some x2"
    "x = (st2\<lparr>knowledge := fst x2\<rparr>, snd x2)"
    by (rule inference_round_parts)
  have fin: "\<forall>s \<in> set (knowledge st). finite (cells s)" using assms(1) by (simp add: consistent_def)
  have ac: "all_cells (fst x) = all_cells (fst x1)"
    using subsume_outer_all_cells [OF p(3)] p(2,4) all_cells_drop_empty [of "fst x1"]
    by (simp add: all_cells_def)
  from extract_loop_all_cells [OF fin, of 0]
  have sub: "all_cells (fst x1) \<subseteq> all_cells st"
    and alt: "if snd x1 then all_cells (fst x1) \<noteq> all_cells st else x1 = (st, False)"
    unfolding p(1) by auto
  show ?thesis
  proof (cases "snd x1")
    case True
    then have "all_cells (fst x) \<subset> all_cells st" using ac sub alt by auto
    then have "card (all_cells (fst x)) < card (all_cells st)"
      using finite_all_cells [OF assms(2)] by (rule psubset_card_mono [rotated])
    then show ?thesis by (simp add: rank_def)
  next
    case False
    then have x1: "x1 = (st, False)" using alt by simp
    then have same: "all_cells (fst x) = all_cells st" using ac by simp
    from subsume_outer_extends [OF p(3)] obtain new where new:
      "fst x2 = knowledge st2 @ new" "snd x2 \<longleftrightarrow> snd x1 \<or> new \<noteq> []"
      "set new \<inter> set (knowledge st2) = {}" "\<forall>s \<in> set new. cells s \<noteq> {}"
      by auto
    have ne: "new \<noteq> []" using new(2) assms(4) p(4) False by simp
    then obtain n where n: "n \<in> set new" by (cases new) auto
    have cx: "consistent M (fst x)" "hygienic (fst x)"
      using assms by (auto intro: inference_round_consistent inference_round_hygienic)
    have hw: "height (fst x) = height st" "width (fst x) = width st"
      using inference_round_fields [OF fin assms(3)] by auto
    have kx: "knowledge (fst x) = filter (\<lambda>s. cells s \<noteq> {}) (knowledge st) @ new"
      using p(2,4) new(1) x1 by (simp add: drop_empty_def)
    have lu: "live_universe M (fst x) = live_universe M st" using hw by (simp add: live_universe_def)
    have n_live: "n \<in> live_universe M st"
      using cx n kx new(4) hw
      by (auto simp: live_universe_def universe_def consistent_def hygienic_def)
    have n_new: "n \<notin> set (knowledge st)"
      using n new(3,4) p(2) x1 by (auto simp: drop_empty_def)
    have "live_universe M st - set (knowledge (fst x)) \<subseteq> live_universe M st - set (knowledge st)"
      using kx by (auto simp: live_universe_def)
    moreover have "n \<in> live_universe M st - set (knowledge st)" using n_live n_new by simp
    moreover have "n \<notin> live_universe M st - set (knowledge (fst x))" using n kx by simp
    ultimately have "live_universe M st - set (knowledge (fst x)) \<subset> live_universe M st - set (knowledge st)"
      by blast
    moreover have "finite (live_universe M st - set (knowledge st))"
      using finite_universe [OF finite_board, of M "height st" "width st"]
      by (simp add: live_universe_def)
    ultimately have "card (live_universe M st - set (knowledge (fst x)))
                       < card (live_universe M st - set (knowledge st))"
      by (rule psubset_card_mono [rotated])
    then show ?thesis using same lu by (simp add: rank_def)
  qed
qed

lemma update_knowledge_terminates:
  assumes "consistent M st" "hygienic st"
  shows "\<exists>fin. update_knowledge st = Some fin"
proof -
  have wf: "wf (inv_image (less_than <*lex*> less_than) (rank M))"
    by (intro wf_inv_image wf_lex_prod wf_less_than)
  show ?thesis
    using assms
  proof (induction st rule: wf_induct_rule [OF wf])
    case (1 st)
    obtain x where x: "inference_round st = Some x"
      using inference_round_terminates [OF "1.prems"] by blast
    show ?case
    proof (cases "snd x")
      case True
      have "(fst x, st) \<in> inv_image (less_than <*lex*> less_than) (rank M)"
        using inference_round_decreases [OF "1.prems" x True] by simp
      moreover have "consistent M (fst x)" "hygienic (fst x)"
        using "1.prems" x by (auto intro: inference_round_consistent inference_round_hygienic)
      ultimately obtain fin where "update_knowledge (fst x) = Some fin"
        using "1.IH" by blast
      then show ?thesis using x True by (subst update_knowledge.simps) simp
    next
      case False
      then show ?thesis using x by (subst update_knowledge.simps) simp
    qed
  qed
qed

section \<open>Invariants of reachable states\<close>

lemma consistent_record_observation:
  assumes "consistent M st" "c \<notin> M" "n = int (card (neighborhood (height st) (width st) c \<inter> M))"
  shows "consistent M (record_observation c n st)"
proof -
  let ?N = "neighborhood (height st) (width st) c"
  let ?U = "?N - safes st - mines st"
  have m: "mines st \<subseteq> M" and s: "safes st \<inter> M = {}"
    and k: "\<forall>s \<in> set (knowledge st). finite (cells s) \<and> sentence_holds M s"
    using assms(1) by (auto simp: consistent_def)
  have old: "\<forall>s \<in> set (map (sentence_mark_safe c) (knowledge st)). finite (cells s) \<and> sentence_holds M s"
    using k assms(2) by (auto simp: sentence_mark_safe_eq sentence_holds_safe) (simp add: mark_all_safe_def)
  have "?N \<inter> M = (?N \<inter> mines st - safes st) \<union> (?U \<inter> M)" using m s by auto
  moreover have "(?N \<inter> mines st - safes st) \<inter> (?U \<inter> M) = {}" by auto
  moreover have "finite (?N \<inter> mines st - safes st)" "finite (?U \<inter> M)"
    using finite_neighborhood [of "height st" "width st" c] by auto
  ultimately have "card (?N \<inter> M) = card (?N \<inter> mines st - safes st) + card (?U \<inter> M)"
    by (metis card_Un_disjoint)
  then have new: "sentence_holds M \<lparr>cells = ?U, count = n - int (card (?N \<inter> mines st - safes st))\<rparr>"
    using assms(3) by (simp add: sentence_holds_def)
  have "finite ?U" using finite_neighborhood [of "height st" "width st" c] by simp
  then show ?thesis
    using old new m s assms(2)
    unfolding consistent_def record_observation_knowledge record_observation_fields
    by auto
qed

lemma hygienic_record_observation:
  assumes "hygienic st"
  shows "hygienic (record_observation c n st)"
proof -
  let ?N = "neighborhood (height st) (width st) c"
  have "?N \<subseteq> board (height st) (width st)" by (rule neighborhood_board)
  moreover have "c \<notin> ?N" by (rule neighborhood_irrefl)
  ultimately show ?thesis
    using assms
    unfolding hygienic_def record_observation_knowledge record_observation_fields
    by (auto simp: sentence_mark_safe_eq mark_all_safe_def)
qed

lemma consistent_ai_mark_mine: "consistent M st \<Longrightarrow> c \<in> M \<Longrightarrow> consistent M (ai_mark_mine c st)"
  by (simp add: ai_mark_mine_eq consistent_resolve_mine)

lemma consistent_ai_mark_safe: "consistent M st \<Longrightarrow> c \<notin> M \<Longrightarrow> consistent M (ai_mark_safe c st)"
  by (simp add: ai_mark_safe_eq consistent_resolve_safe)

lemma hygienic_ai_mark_mine: "hygienic st \<Longrightarrow> hygienic (ai_mark_mine c st)"
  by (simp add: ai_mark_mine_eq hygienic_resolve_mine)

lemma hygienic_ai_mark_safe: "hygienic st \<Longrightarrow> hygienic (ai_mark_safe c st)"
  by (simp add: ai_mark_safe_eq hygienic_resolve_safe)

lemma update_knowledge_board:
  assumes "update_knowledge st = Some fin" "\<forall>s \<in> set (knowledge st). finite (cells s)"
  shows "height fin = height st \<and> width fin = width st \<and> moves_made fin = moves_made st \<and>
         mines st \<subseteq> mines fin \<and> safes st \<subseteq> safes fin"
proof -
  let ?P = "\<lambda>p. (\<forall>s \<in> set (knowledge p). finite (cells s)) \<and>
        height p = height st \<and> width p = width st \<and> moves_made p = moves_made st \<and>
         mines st \<subseteq> mines p \<and> safes st \<subseteq> safes p"
  have "?P fin"
  proof (rule update_knowledge_invariant [OF assms(1), where P = ?P])
    show "?P st" using assms(2) by simp
  next
    fix p x assume a: "?P p" "inference_round p = Some x"
    have f: "\<forall>s \<in> set (knowledge p). finite (cells s)" using a by simp
    from inference_round_parts [OF a(2)] obtain x1 st2 x2 where p:
      "x1 = extract_loop 0 (p, False)" "st2 = drop_empty (fst x1)"
      "subsume_outer 0 (knowledge st2, snd x1) = Some x2"
      "x = (st2\<lparr>knowledge := fst x2\<rparr>, snd x2)" by blast
    have "\<forall>s \<in> set (knowledge st2). finite (cells s)"
      using extract_loop_fields [of "(p, False)" 0] f p(1,2) by (simp add: drop_empty_def)
    then have "\<forall>s \<in> set (fst x2). finite (cells s)"
      using subsume_outer_cells [OF p(3)] by (metis finite_subset fst_conv)
    then show "?P (fst x)" using inference_round_fields [OF f a(2)] a(1) p(4) by auto
  qed
  then show ?thesis by simp
qed

lemma step_invariant:
  assumes "consistent M st" "hygienic st" "height st = h" "width st = w"
    "truthful M h w opn" "step opn st = Some st'"
  shows "consistent M st' \<and> hygienic st' \<and> height st' = h \<and> width st' = w"
proof (cases opn)
  case (AddKnowledge c n)
  let ?o = "record_observation c n st"
  have c: "consistent M ?o" using assms AddKnowledge by (intro consistent_record_observation) auto
  have hy: "hygienic ?o" using assms(2) by (rule hygienic_record_observation)
  have u: "update_knowledge ?o = Some st'" using assms(6) AddKnowledge by (simp add: add_knowledge_def)
  have "height st' = height ?o \<and> width st' = width ?o"
    using update_knowledge_board [OF u] c by (simp add: consistent_def)
  then show ?thesis
    using update_knowledge_consistent [OF c u] update_knowledge_hygienic [OF hy u] assms(3,4)
    by (simp add: record_observation_fields)
next
  case (MarkMine c)
  then show ?thesis using assms
    by (auto simp: consistent_ai_mark_mine hygienic_ai_mark_mine) (simp_all add: ai_mark_mine_def)
next
  case (MarkSafe c)
  then show ?thesis using assms
    by (auto simp: consistent_ai_mark_safe hygienic_ai_mark_safe) (simp_all add: ai_mark_safe_def)
next
  case MakeSafeMove
  then show ?thesis using assms by auto
next
  case (MakeRandomMove draws)
  then show ?thesis using assms by (auto split: option.splits)
qed

lemma init_invariant: "consistent M (init_ai h w) \<and> hygienic (init_ai h w)"
  by (simp add: consistent_def hygienic_def init_ai_def)

lemma run_invariant:
  assumes "consistent M st" "hygienic st" "height st = h" "width st = w"
    "\<forall>opn \<in> set ops. truthful M h w opn" "run ops st = Some st'"
  shows "consistent M st' \<and> hygienic st' \<and> height st' = h \<and> width st' = w"
  using assms
proof (induction ops arbitrary: st)
  case Nil
  then show ?case by simp
next
  case (Cons opn ops)
  from Cons.prems(6) obtain st1 where st1: "step opn st = Some st1" "run ops st1 = Some st'"
    by (auto split: option.splits)
  have "consistent M st1 \<and> hygienic st1 \<and> height st1 = h \<and> width st1 = w"
    using step_invariant [OF Cons.prems(1-4) _ st1(1)] Cons.prems(5) by simp
  then show ?case using Cons.IH [of st1] Cons.prems(5) st1(2) by simp
qed

lemma step_hygienic:
  assumes "hygienic st" "step opn st = Some st'"
  shows "hygienic st' \<and> height st' = height st \<and> width st' = width st"
proof (cases opn)
  case (AddKnowledge c n)
  let ?o = "record_observation c n st"
  have hy: "hygienic ?o" using assms(1) by (rule hygienic_record_observation)
  have u: "update_knowledge ?o = Some st'" using assms(2) AddKnowledge by (simp add: add_knowledge_def)
  have "height st' = height ?o \<and> width st' = width ?o"
    using update_knowledge_board [OF u] hy hygienic_finite by blast
  then show ?thesis
    using update_knowledge_hygienic [OF hy u] by (simp add: record_observation_fields)
next
  case (MarkMine c)
  then show ?thesis using assms
    by (auto simp: hygienic_ai_mark_mine) (simp_all add: ai_mark_mine_def)
next
  case (MarkSafe c)
  then show ?thesis using assms
    by (auto simp: hygienic_ai_mark_safe) (simp_all add: ai_mark_safe_def)
next
  case MakeSafeMove
  then show ?thesis using assms by auto
next
  case (MakeRandomMove draws)
  then show ?thesis using assms by (auto split: option.splits)
qed

lemma run_hygienic:
  assumes "hygienic st" "run ops st = Some st'"
  shows "hygienic st' \<and> height st' = height st \<and> width st' = width st"
  using assms
proof (induction ops arbitrary: st)
  case Nil
  then show ?case by simp
next
  case (Cons opn ops)
  from Cons.prems(2) obtain st1 where st1: "step opn st = Some st1" "run ops st1 = Some st'"
    by (auto split: option.splits)
  have "hygienic st1 \<and> height st1 = height st \<and> width st1 = width st"
    using step_hygienic [OF Cons.prems(1) st1(1)] .
  then show ?case using Cons.IH [of st1] st1(2) by simp
qed

lemma holds_count_bounds:
  assumes "sentence_holds M s" "finite (cells s)"
  shows "0 \<le> count s \<and> count s \<le> int (card (cells s))"
proof -
  have "card (cells s \<inter> M) \<le> card (cells s)" using assms(2) by (simp add: card_mono)
  then show ?thesis using assms(1) by (simp add: sentence_holds_def)
qed

text \<open>
  C10.  From any state reached from a fresh instance by any sequence of operations, when
  \<open>add_knowledge\<close> returns every sentence in \<open>knowledge\<close> has a cell, mentions only cells
  of the board, and mentions no cell of \<open>mines\<close> and no cell of \<open>safes\<close>.
\<close>

theorem add_knowledge_hygiene:
  assumes "run ops (init_ai h w) = Some st"
    and "add_knowledge c n st = Some st'"
    and "s \<in> set (knowledge st')"
  shows "cells s \<noteq> {} \<and> cells s \<subseteq> board h w \<and>
         cells s \<inter> mines st' = {} \<and> cells s \<inter> safes st' = {}"
proof -
  have "hygienic (init_ai h w)" by (simp add: init_invariant)
  then have st: "hygienic st \<and> height st = h \<and> width st = w"
    using run_hygienic [OF _ assms(1)] by (simp add: init_ai_def)
  have "step (AddKnowledge c n) st = Some st'" using assms(2) by simp
  then have "hygienic st' \<and> height st' = h \<and> width st' = w"
    using step_hygienic [of st "AddKnowledge c n" st'] st by simp
  moreover have "settled st'"
    using assms(2) by (auto simp: add_knowledge_def intro: update_knowledge_settled)
  ultimately show ?thesis using assms(3) unfolding hygienic_def settled_def by blast
qed

theorem add_knowledge_hygiene_witness:
  "run [AddKnowledge (0, 0) 1] (init_ai 2 2)
     = Some \<lparr>height = 2, width = 2, moves_made = {(0, 0)}, mines = {}, safes = {(0, 0)},
             knowledge = [\<lparr>cells = {(0, 1), (1, 0), (1, 1)}, count = 1\<rparr>]\<rparr> \<and>
   add_knowledge (0, 1) 1
       \<lparr>height = 2, width = 2, moves_made = {(0, 0)}, mines = {}, safes = {(0, 0)},
        knowledge = [\<lparr>cells = {(0, 1), (1, 0), (1, 1)}, count = 1\<rparr>]\<rparr>
     = Some \<lparr>height = 2, width = 2, moves_made = {(0, 0), (0, 1)}, mines = {},
             safes = {(0, 0), (0, 1)},
             knowledge = [\<lparr>cells = {(1, 0), (1, 1)}, count = 1\<rparr>,
                          \<lparr>cells = {(1, 0), (1, 1)}, count = 1\<rparr>]\<rparr> \<and>
   cells \<lparr>cells = {(1, 0), (1, 1)}, count = 1\<rparr> \<noteq> {} \<and>
   cells \<lparr>cells = {(1, 0), (1, 1)}, count = 1\<rparr> \<subseteq> board 2 2 \<and>
   cells \<lparr>cells = {(1, 0), (1, 1)}, count = 1\<rparr> \<inter> {} = {} \<and>
   cells \<lparr>cells = {(1, 0), (1, 1)}, count = 1\<rparr> \<inter> {(0, 0), (0, 1)} = {}"
proof -
  have h1: "run [AddKnowledge (0, 0) 1] (init_ai 2 2)
     = Some \<lparr>height = 2, width = 2, moves_made = {(0, 0)}, mines = {}, safes = {(0, 0)},
             knowledge = [\<lparr>cells = {(0, 1), (1, 0), (1, 1)}, count = 1\<rparr>]\<rparr>"
    by code_simp
  have h2: "add_knowledge (0, 1) 1
       \<lparr>height = 2, width = 2, moves_made = {(0, 0)}, mines = {}, safes = {(0, 0)},
        knowledge = [\<lparr>cells = {(0, 1), (1, 0), (1, 1)}, count = 1\<rparr>]\<rparr>
     = Some \<lparr>height = 2, width = 2, moves_made = {(0, 0), (0, 1)}, mines = {},
             safes = {(0, 0), (0, 1)},
             knowledge = [\<lparr>cells = {(1, 0), (1, 1)}, count = 1\<rparr>,
                          \<lparr>cells = {(1, 0), (1, 1)}, count = 1\<rparr>]\<rparr>"
    by code_simp
  have h3: "\<lparr>cells = {(1, 0), (1, 1)}, count = 1\<rparr> \<in> set (knowledge
       \<lparr>height = 2, width = 2, moves_made = {(0, 0), (0, 1)}, mines = {},
             safes = {(0, 0), (0, 1)},
             knowledge = [\<lparr>cells = {(1, 0), (1, 1)}, count = 1\<rparr>,
                          \<lparr>cells = {(1, 0), (1, 1)}, count = 1\<rparr>]\<rparr>)"
    by simp
  show ?thesis using add_knowledge_hygiene [OF h1 h2 h3] h1 h2 by simp
qed

section \<open>Which pairs a pass visits\<close>

lemma subsume_inner_visits:
  assumes "subsume_inner s1 0 x = Some y"
  shows "\<forall>b \<in> set (fst y). s1 \<noteq> b \<and> cells s1 \<subseteq> cells b \<and> cells (subsume_candidate s1 b) \<noteq> {}
           \<longrightarrow> subsume_candidate s1 b \<in> set (fst y)"
proof -
  define P where "P = (\<lambda>(j :: nat) (z :: sentence list \<times> bool). \<forall>l. l < j \<and> l < length (fst z) \<longrightarrow>
      (s1 \<noteq> fst z ! l \<and> cells s1 \<subseteq> cells (fst z ! l) \<and> cells (subsume_candidate s1 (fst z ! l)) \<noteq> {}
           \<longrightarrow> subsume_candidate s1 (fst z ! l) \<in> set (fst z)))"
  have "\<exists>j'. length (fst y) \<le> j' \<and> P j' y"
  proof (rule subsume_inner_rule [OF assms, where P = P])
    show "P 0 x" by (simp add: P_def)
  next
    fix j and z :: "sentence list \<times> bool"
    assume a: "P j z" "j < length (fst z)"
    let ?z' = "subsume_pair s1 (fst z ! j) z"
    have mono: "set (fst z) \<subseteq> set (fst ?z')" by (rule subsume_pair_set_mono)
    show "P (Suc j) ?z'"
      unfolding P_def
    proof (intro allI impI)
      fix l assume l: "l < Suc j \<and> l < length (fst ?z')"
        and c: "s1 \<noteq> fst ?z' ! l \<and> cells s1 \<subseteq> cells (fst ?z' ! l) \<and>
                cells (subsume_candidate s1 (fst ?z' ! l)) \<noteq> {}"
      have lz: "l < length (fst z)" using l a(2) by simp
      then have nth: "fst ?z' ! l = fst z ! l" by (rule subsume_pair_nth)
      have c': "s1 \<noteq> fst z ! l" "cells s1 \<subseteq> cells (fst z ! l)"
                "cells (subsume_candidate s1 (fst z ! l)) \<noteq> {}"
        using c unfolding nth by blast+
      have "subsume_candidate s1 (fst z ! l) \<in> set (fst ?z')"
      proof (cases "l < j")
        case True
        have "subsume_candidate s1 (fst z ! l) \<in> set (fst z)"
          using a(1) [unfolded P_def, rule_format, of l] True lz c' by blast
        then show ?thesis using mono by blast
      next
        case False
        then have lj: "l = j" using l by simp
        from subsume_pair_cases [of s1 "fst z ! j" z] show ?thesis
        proof
          assume same: "?z' = z"
          have "subsume_candidate s1 (fst z ! j) \<in> set (fst z)"
            using same [unfolded subsume_pair_unchanged_iff] c' unfolding lj by blast
          then show ?thesis using mono unfolding lj by blast
        next
          assume "s1 \<noteq> fst z ! j \<and> cells s1 \<subseteq> cells (fst z ! j) \<and>
            subsume_candidate s1 (fst z ! j) \<notin> set (fst z) \<and>
            cells (subsume_candidate s1 (fst z ! j)) \<noteq> {} \<and>
            ?z' = (fst z @ [subsume_candidate s1 (fst z ! j)], True)"
          then have "fst ?z' = fst z @ [subsume_candidate s1 (fst z ! j)]" by simp
          then show ?thesis unfolding lj by simp
        qed
      qed
      then show "subsume_candidate s1 (fst ?z' ! l) \<in> set (fst ?z')" unfolding nth .
    qed
  qed
  then obtain j' where j': "length (fst y) \<le> j'" and Pj: "P j' y" by blast
  show ?thesis
  proof (intro ballI impI)
    fix b assume b: "b \<in> set (fst y)"
      and c: "s1 \<noteq> b \<and> cells s1 \<subseteq> cells b \<and> cells (subsume_candidate s1 b) \<noteq> {}"
    obtain l where l: "l < length (fst y)" "fst y ! l = b" using b by (auto simp: in_set_conv_nth)
    have "l < j'" using l(1) j' by simp
    then show "subsume_candidate s1 b \<in> set (fst y)"
      using Pj [unfolded P_def, rule_format, of l] l c by blast
  qed
qed

lemma subsume_inner_extends:
  assumes "subsume_inner s1 j x = Some y"
  shows "\<exists>new. fst y = fst x @ new"
proof -
  have "\<exists>j'. length (fst y) \<le> j' \<and> (\<exists>new. fst y = fst x @ new)"
  proof (rule subsume_inner_rule [OF assms, where P = "\<lambda>j z. \<exists>new. fst z = fst x @ new"])
    show "\<exists>new. fst x = fst x @ new" by simp
  next
    fix j and z :: "sentence list \<times> bool"
    assume "\<exists>new. fst z = fst x @ new" "j < length (fst z)"
    then obtain new where z: "fst z = fst x @ new" by blast
    from subsume_pair_cases [of s1 "fst z ! j" z]
    show "\<exists>new. fst (subsume_pair s1 (fst z ! j) z) = fst x @ new"
    proof
      assume "subsume_pair s1 (fst z ! j) z = z"
      then show ?thesis using z by simp
    next
      assume "s1 \<noteq> fst z ! j \<and> cells s1 \<subseteq> cells (fst z ! j) \<and>
            subsume_candidate s1 (fst z ! j) \<notin> set (fst z) \<and>
            cells (subsume_candidate s1 (fst z ! j)) \<noteq> {} \<and>
            subsume_pair s1 (fst z ! j) z = (fst z @ [subsume_candidate s1 (fst z ! j)], True)"
      then have "fst (subsume_pair s1 (fst z ! j) z) = fst x @ (new @ [subsume_candidate s1 (fst z ! j)])"
        using z by simp
      then show ?thesis by blast
    qed
  qed
  then show ?thesis by blast
qed

lemma subsume_outer_visits:
  assumes "subsume_outer 0 x = Some y"
  shows "\<forall>a \<in> set (fst y). \<forall>b \<in> set (fst x).
           a \<noteq> b \<and> cells a \<subseteq> cells b \<and> cells (subsume_candidate a b) \<noteq> {}
             \<longrightarrow> subsume_candidate a b \<in> set (fst y)"
proof -
  define P where "P = (\<lambda>(i :: nat) (z :: sentence list \<times> bool). (\<exists>new. fst z = fst x @ new) \<and>
      (\<forall>k. k < i \<and> k < length (fst z) \<longrightarrow> (\<forall>b \<in> set (fst x).
           fst z ! k \<noteq> b \<and> cells (fst z ! k) \<subseteq> cells b \<and> cells (subsume_candidate (fst z ! k) b) \<noteq> {}
             \<longrightarrow> subsume_candidate (fst z ! k) b \<in> set (fst z))))"
  have "\<exists>i'. length (fst y) \<le> i' \<and> P i' y"
  proof (rule subsume_outer_rule [OF assms, where P = P])
    show "P 0 x" by (simp add: P_def)
  next
    fix i and z z' :: "sentence list \<times> bool"
    assume a: "P i z" "i < length (fst z)" "subsume_inner (fst z ! i) 0 z = Some z'"
    from subsume_inner_extends [OF a(3)] obtain new' where z': "fst z' = fst z @ new'" by blast
    from a(1) obtain new where z: "fst z = fst x @ new" unfolding P_def by blast
    have old: "\<And>k b. k < i \<Longrightarrow> k < length (fst z) \<Longrightarrow> b \<in> set (fst x) \<Longrightarrow>
           fst z ! k \<noteq> b \<Longrightarrow> cells (fst z ! k) \<subseteq> cells b \<Longrightarrow>
           cells (subsume_candidate (fst z ! k) b) \<noteq> {}
             \<Longrightarrow> subsume_candidate (fst z ! k) b \<in> set (fst z)"
      using a(1) unfolding P_def by blast
    have ext: "\<exists>new. fst z' = fst x @ new" using z z' by simp
    have vis: "\<And>b. b \<in> set (fst z') \<Longrightarrow> fst z ! i \<noteq> b \<Longrightarrow> cells (fst z ! i) \<subseteq> cells b \<Longrightarrow>
                 cells (subsume_candidate (fst z ! i) b) \<noteq> {}
           \<Longrightarrow> subsume_candidate (fst z ! i) b \<in> set (fst z')"
      using subsume_inner_visits [OF a(3)] by blast
    have "\<forall>k. k < Suc i \<and> k < length (fst z') \<longrightarrow> (\<forall>b \<in> set (fst x).
           fst z' ! k \<noteq> b \<and> cells (fst z' ! k) \<subseteq> cells b \<and> cells (subsume_candidate (fst z' ! k) b) \<noteq> {}
             \<longrightarrow> subsume_candidate (fst z' ! k) b \<in> set (fst z'))"
    proof (intro allI impI ballI)
      fix k b
      assume k: "k < Suc i \<and> k < length (fst z')" and b: "b \<in> set (fst x)"
        and c: "fst z' ! k \<noteq> b \<and> cells (fst z' ! k) \<subseteq> cells b \<and>
                cells (subsume_candidate (fst z' ! k) b) \<noteq> {}"
      have kz: "k < length (fst z)" using k a(2) by simp
      then have nth: "fst z' ! k = fst z ! k" using z' by (simp add: nth_append)
      have c': "fst z ! k \<noteq> b" "cells (fst z ! k) \<subseteq> cells b"
         "cells (subsume_candidate (fst z ! k) b) \<noteq> {}" using c unfolding nth by blast+
      have bz': "b \<in> set (fst z')" using b z z' by simp
      have "subsume_candidate (fst z ! k) b \<in> set (fst z')"
      proof (cases "k < i")
        case True
        have "subsume_candidate (fst z ! k) b \<in> set (fst z)"
          using old [OF True kz b c'] .
        then show ?thesis using z' by simp
      next
        case False
        then have ki: "k = i" using k by simp
        show ?thesis using vis [OF bz'] c' unfolding ki by blast
      qed
      then show "subsume_candidate (fst z' ! k) b \<in> set (fst z')" unfolding nth .
    qed
    then show "P (Suc i) z'" using ext unfolding P_def by blast
  qed
  then obtain i' where i': "length (fst y) \<le> i'" and Pi: "P i' y" by blast
  show ?thesis
  proof (intro ballI impI)
    fix a b assume a: "a \<in> set (fst y)" and b: "b \<in> set (fst x)"
      and c: "a \<noteq> b \<and> cells a \<subseteq> cells b \<and> cells (subsume_candidate a b) \<noteq> {}"
    obtain k where k: "k < length (fst y)" "fst y ! k = a" using a by (auto simp: in_set_conv_nth)
    have "k < i'" using k(1) i' by simp
    moreover have "\<And>k b. k < i' \<Longrightarrow> k < length (fst y) \<Longrightarrow> b \<in> set (fst x) \<Longrightarrow>
           fst y ! k \<noteq> b \<Longrightarrow> cells (fst y ! k) \<subseteq> cells b \<Longrightarrow>
           cells (subsume_candidate (fst y ! k) b) \<noteq> {}
             \<Longrightarrow> subsume_candidate (fst y ! k) b \<in> set (fst y)"
      using Pi unfolding P_def by blast
    ultimately show "subsume_candidate a b \<in> set (fst y)" using k b c by blast
  qed
qed

section \<open>The subsumption step\<close>

text \<open>
  C1.  For an ordered pair \<open>(A, B)\<close> the candidate has the cells of \<open>B\<close> that are not in
  \<open>A\<close> and the difference of the counts.  The step for the pair appends the candidate and
  sets the flag exactly when \<open>A\<close> and \<open>B\<close> are distinct, the cells of \<open>A\<close> are among those
  of \<open>B\<close>, the candidate has a cell and no equal sentence is in the list; otherwise it
  changes nothing.  A pass pairs every sentence of the list it ends with against every
  sentence it started with, and when \<open>update_knowledge\<close> returns the non-empty candidate of
  every such pair of \<open>knowledge\<close> is in \<open>knowledge\<close>.  The candidate is sound: for every mine
  assignment for which \<open>A\<close> and \<open>B\<close> hold, the candidate holds.
\<close>

theorem subsumption_step:
  "subsume_candidate A B = \<lparr>cells = cells B - cells A, count = count B - count A\<rparr> \<and>
   subsume_pair A B (kn, changed) =
     (if A \<noteq> B \<and> cells A \<subseteq> cells B \<and>
         subsume_candidate A B \<notin> set kn \<and> cells (subsume_candidate A B) \<noteq> {}
      then (kn @ [subsume_candidate A B], True) else (kn, changed)) \<and>
   (subsume_outer 0 (kn, changed) = Some (kn', changed') \<and> A \<in> set kn' \<and> B \<in> set kn \<and>
    A \<noteq> B \<and> cells A \<subseteq> cells B \<and> cells (subsume_candidate A B) \<noteq> {}
      \<longrightarrow> subsume_candidate A B \<in> set kn') \<and>
   (update_knowledge st = Some fin \<and> A \<in> set (knowledge fin) \<and> B \<in> set (knowledge fin) \<and>
    A \<noteq> B \<and> cells A \<subseteq> cells B \<and> cells (subsume_candidate A B) \<noteq> {}
      \<longrightarrow> subsume_candidate A B \<in> set (knowledge fin)) \<and>
   (finite (cells B) \<and> cells A \<subseteq> cells B \<and> sentence_holds M A \<and> sentence_holds M B
      \<longrightarrow> sentence_holds M (subsume_candidate A B))"
proof (intro conjI impI)
  show "subsume_candidate A B = \<lparr>cells = cells B - cells A, count = count B - count A\<rparr>"
    by (simp add: subsume_candidate_def)
  show "subsume_pair A B (kn, changed) =
     (if A \<noteq> B \<and> cells A \<subseteq> cells B \<and>
         subsume_candidate A B \<notin> set kn \<and> cells (subsume_candidate A B) \<noteq> {}
      then (kn @ [subsume_candidate A B], True) else (kn, changed))"
    by (simp add: subsume_pair_def Let_def)
next
  assume a: "subsume_outer 0 (kn, changed) = Some (kn', changed') \<and> A \<in> set kn' \<and> B \<in> set kn \<and>
    A \<noteq> B \<and> cells A \<subseteq> cells B \<and> cells (subsume_candidate A B) \<noteq> {}"
  then have "subsume_outer 0 (kn, changed) = Some (kn', changed')" by simp
  from subsume_outer_visits [OF this] a show "subsume_candidate A B \<in> set kn'" by simp
next
  assume a: "update_knowledge st = Some fin \<and> A \<in> set (knowledge fin) \<and> B \<in> set (knowledge fin) \<and>
    A \<noteq> B \<and> cells A \<subseteq> cells B \<and> cells (subsume_candidate A B) \<noteq> {}"
  then have "update_knowledge st = Some fin" by simp
  then have "settled fin" by (rule update_knowledge_settled)
  then show "subsume_candidate A B \<in> set (knowledge fin)" using a unfolding settled_def by blast
next
  assume "finite (cells B) \<and> cells A \<subseteq> cells B \<and> sentence_holds M A \<and> sentence_holds M B"
  then show "sentence_holds M (subsume_candidate A B)" by (simp add: subsume_candidate_holds)
qed


theorem subsumption_step_witness:
  "subsume_candidate \<lparr>cells = {(0, 0), (0, 1)}, count = 1\<rparr>
      \<lparr>cells = {(0, 0), (0, 1), (1, 0), (1, 1)}, count = 2\<rparr>
     = \<lparr>cells = {(1, 0), (1, 1)}, count = 1\<rparr> \<and>
   subsume_pair \<lparr>cells = {(0, 0), (0, 1)}, count = 1\<rparr>
      \<lparr>cells = {(0, 0), (0, 1), (1, 0), (1, 1)}, count = 2\<rparr>
      ([\<lparr>cells = {(0, 0), (0, 1)}, count = 1\<rparr>,
        \<lparr>cells = {(0, 0), (0, 1), (1, 0), (1, 1)}, count = 2\<rparr>], False)
     = ([\<lparr>cells = {(0, 0), (0, 1)}, count = 1\<rparr>,
         \<lparr>cells = {(0, 0), (0, 1), (1, 0), (1, 1)}, count = 2\<rparr>,
         \<lparr>cells = {(1, 0), (1, 1)}, count = 1\<rparr>], True) \<and>
   update_knowledge
      \<lparr>height = 2, width = 2, moves_made = {}, mines = {}, safes = {}, knowledge = [\<lparr>cells = {(0, 0), (0, 1)}, count = 1\<rparr>, \<lparr>cells = {(0, 0), (0, 1), (1, 0), (1, 1)}, count = 2\<rparr>]\<rparr>
     = Some \<lparr>height = 2, width = 2, moves_made = {}, mines = {}, safes = {}, knowledge = [\<lparr>cells = {(0, 0), (0, 1)}, count = 1\<rparr>, \<lparr>cells = {(0, 0), (0, 1), (1, 0), (1, 1)}, count = 2\<rparr>, \<lparr>cells = {(1, 0), (1, 1)}, count = 1\<rparr>]\<rparr> \<and>
   sentence_holds {(0, 0), (1, 0)} \<lparr>cells = {(0, 0), (0, 1)}, count = 1\<rparr> \<and>
   sentence_holds {(0, 0), (1, 0)} \<lparr>cells = {(0, 0), (0, 1), (1, 0), (1, 1)}, count = 2\<rparr> \<and>
   sentence_holds {(0, 0), (1, 0)} \<lparr>cells = {(1, 0), (1, 1)}, count = 1\<rparr>"
proof -
  let ?A = "\<lparr>cells = {(0, 0), (0, 1)}, count = 1\<rparr>"
  let ?B = "\<lparr>cells = {(0, 0), (0, 1), (1, 0), (1, 1)}, count = 2\<rparr>"
  let ?C = "\<lparr>cells = {(1, 0), (1, 1)}, count = 1\<rparr>"
  let ?st = "\<lparr>height = 2, width = 2, moves_made = {}, mines = {}, safes = {}, knowledge = [\<lparr>cells = {(0, 0), (0, 1)}, count = 1\<rparr>, \<lparr>cells = {(0, 0), (0, 1), (1, 0), (1, 1)}, count = 2\<rparr>]\<rparr>"
  let ?fin = "\<lparr>height = 2, width = 2, moves_made = {}, mines = {}, safes = {}, knowledge = [\<lparr>cells = {(0, 0), (0, 1)}, count = 1\<rparr>, \<lparr>cells = {(0, 0), (0, 1), (1, 0), (1, 1)}, count = 2\<rparr>, \<lparr>cells = {(1, 0), (1, 1)}, count = 1\<rparr>]\<rparr>"
  note t = subsumption_step [of ?A ?B "[?A, ?B]" False "[?A, ?B, ?C]" True ?st ?fin "{(0, 0), (1, 0)}"]
  have c: "cells ?A \<subseteq> cells ?B" "?A \<noteq> ?B" "finite (cells ?B)" by simp_all
  have u: "update_knowledge ?st = Some ?fin" by code_simp
  have hA: "sentence_holds {(0, 0), (1, 0)} ?A" by code_simp
  have hB: "sentence_holds {(0, 0), (1, 0)} ?B" by code_simp
  have cand: "subsume_candidate ?A ?B = ?C" by code_simp
  have pair: "subsume_pair ?A ?B ([?A, ?B], False) = ([?A, ?B, ?C], True)" by code_simp
  have "sentence_holds {(0, 0), (1, 0)} (subsume_candidate ?A ?B)" using t c hA hB by blast
  then show ?thesis using cand pair u hA hB by simp
qed

section \<open>Termination of the fixpoint procedure\<close>

text \<open>
  A pass cannot end on a list with two sentences over the same cells \<open>Y\<close> and different
  counts, and a sentence over some but not all cells of \<open>Y\<close>: each candidate over the
  smaller set yields one with a count further away, and all of them would be in the list.
\<close>

lemma subsume_outer_set_mono:
  assumes "subsume_outer i x = Some y"
  shows "set (fst x) \<subseteq> set (fst y)"
  using subsume_outer_extends [OF assms] by auto

lemma drifting_pass_diverges:
  assumes X: "X \<noteq> {}" "X \<subseteq> Y" and Z: "Y - X \<noteq> {}"
    and mem: "\<lparr>cells = Y, count = p\<rparr> \<in> set kn" "\<lparr>cells = Y, count = q\<rparr> \<in> set kn"
      "\<lparr>cells = X, count = c\<rparr> \<in> set kn"
    and pq: "p < q"
  shows "subsume_outer 0 (kn, changed) = None"
proof (rule ccontr)
  assume "subsume_outer 0 (kn, changed) \<noteq> None"
  then obtain y where y: "subsume_outer 0 (kn, changed) = Some y" by blast
  let ?S = "set (fst y)"
  have sub: "set kn \<subseteq> ?S" using subsume_outer_set_mono [OF y] by simp
  have vis: "\<And>a b. a \<in> ?S \<Longrightarrow> b \<in> set kn \<Longrightarrow> a \<noteq> b \<Longrightarrow> cells a \<subseteq> cells b \<Longrightarrow>
             cells (subsume_candidate a b) \<noteq> {} \<Longrightarrow> subsume_candidate a b \<in> ?S"
    using subsume_outer_visits [OF y] by simp
  have XY: "X \<noteq> Y" using Z by auto
  have YZ: "Y - X \<noteq> Y" using X by auto
  have YZX: "Y - (Y - X) = X" using X(2) by auto
  have step: "\<lparr>cells = X, count = d - (q - p)\<rparr> \<in> ?S" if d: "\<lparr>cells = X, count = d\<rparr> \<in> ?S" for d
  proof -
    have "subsume_candidate \<lparr>cells = X, count = d\<rparr> \<lparr>cells = Y, count = q\<rparr> \<in> ?S"
      using vis [OF d mem(2)] X Z XY by (simp add: subsume_candidate_def)
    then have z: "\<lparr>cells = Y - X, count = q - d\<rparr> \<in> ?S" by (simp add: subsume_candidate_def)
    have "subsume_candidate \<lparr>cells = Y - X, count = q - d\<rparr> \<lparr>cells = Y, count = p\<rparr> \<in> ?S"
      using vis [OF z mem(1)] X YZ YZX by (simp add: subsume_candidate_def)
    then have "\<lparr>cells = X, count = p - (q - d)\<rparr> \<in> ?S"
      by (simp add: subsume_candidate_def YZX)
    moreover have "p - (q - d) = d - (q - p)" by simp
    ultimately show ?thesis by simp
  qed
  have all: "\<lparr>cells = X, count = c - int n * (q - p)\<rparr> \<in> ?S" for n
  proof (induction n)
    case 0
    show ?case using mem(3) sub by auto
  next
    case (Suc n)
    have e: "(c - int n * (q - p)) - (q - p) = c - int (Suc n) * (q - p)" by (simp add: algebra_simps)
    show ?case using step [OF Suc] unfolding e .
  qed
  have inj: "inj (\<lambda>n. \<lparr>cells = X, count = c - int n * (q - p)\<rparr>)"
    using pq by (auto simp: inj_on_def)
  have "range (\<lambda>n. \<lparr>cells = X, count = c - int n * (q - p)\<rparr>) \<subseteq> ?S"
    using all by auto
  then have "finite (range (\<lambda>n. \<lparr>cells = X, count = c - int n * (q - p)\<rparr>))"
    by (rule finite_subset) simp
  then have "finite (UNIV :: nat set)" using inj by (rule finite_imageD)
  then show False by simp
qed

text \<open>
  C3 (amended).  In every state reached from a fresh instance by operations that are truthful
  for one mine assignment, \<open>update_knowledge\<close> returns, and so does \<open>add_knowledge\<close> for a
  truthful observation (the loop ends after finitely many rounds, each of which ends).
\<close>

theorem update_knowledge_halts:
  assumes "\<forall>opn \<in> set ops. truthful M h w opn"
    and "run ops (init_ai h w) = Some st"
  shows "(\<exists>fin. update_knowledge st = Some fin) \<and>
         (truthful M h w (AddKnowledge c n) \<longrightarrow> (\<exists>fin. add_knowledge c n st = Some fin))"
proof -
  have inv: "consistent M st \<and> hygienic st \<and> height st = h \<and> width st = w"
    using run_invariant [OF _ _ _ _ assms] init_invariant [of M h w]
    by (simp add: init_ai_def)
  then have "\<exists>fin. update_knowledge st = Some fin"
    using update_knowledge_terminates [of M st] by blast
  moreover have "\<exists>fin. add_knowledge c n st = Some fin" if "truthful M h w (AddKnowledge c n)"
  proof -
    have "consistent M (record_observation c n st)"
      using that inv by (intro consistent_record_observation) auto
    moreover have "hygienic (record_observation c n st)"
      using inv by (simp add: hygienic_record_observation)
    ultimately show ?thesis
      unfolding add_knowledge_def by (rule update_knowledge_terminates)
  qed
  ultimately show ?thesis by blast
qed

theorem update_knowledge_halts_witness:
  "truthful {(1, 1)} 2 2 (AddKnowledge (0, 0) 1) \<and>
   run [AddKnowledge (0, 0) 1] (init_ai 2 2)
     = Some \<lparr>height = 2, width = 2, moves_made = {(0, 0)}, mines = {}, safes = {(0, 0)},
       knowledge = [\<lparr>cells = {(0, 1), (1, 0), (1, 1)}, count = 1\<rparr>]\<rparr> \<and>
   update_knowledge
      \<lparr>height = 2, width = 2, moves_made = {(0, 0)}, mines = {}, safes = {(0, 0)},
       knowledge = [\<lparr>cells = {(0, 1), (1, 0), (1, 1)}, count = 1\<rparr>]\<rparr>
     = Some \<lparr>height = 2, width = 2, moves_made = {(0, 0)}, mines = {}, safes = {(0, 0)},
       knowledge = [\<lparr>cells = {(0, 1), (1, 0), (1, 1)}, count = 1\<rparr>]\<rparr> \<and>
   truthful {(1, 1)} 2 2 (AddKnowledge (0, 1) 1) \<and>
   add_knowledge (0, 1) 1
      \<lparr>height = 2, width = 2, moves_made = {(0, 0)}, mines = {}, safes = {(0, 0)},
       knowledge = [\<lparr>cells = {(0, 1), (1, 0), (1, 1)}, count = 1\<rparr>]\<rparr>
     = Some \<lparr>height = 2, width = 2, moves_made = {(0, 0), (0, 1)}, mines = {}, safes = {(0, 0), (0, 1)},
       knowledge = [\<lparr>cells = {(1, 0), (1, 1)}, count = 1\<rparr>,
         \<lparr>cells = {(1, 0), (1, 1)}, count = 1\<rparr>]\<rparr>"
proof -
  have h1: "\<forall>opn \<in> set [AddKnowledge (0, 0) 1]. truthful {(1, 1)} 2 2 opn" by code_simp
  have h2: "run [AddKnowledge (0, 0) 1] (init_ai 2 2)
     = Some \<lparr>height = 2, width = 2, moves_made = {(0, 0)}, mines = {}, safes = {(0, 0)},
       knowledge = [\<lparr>cells = {(0, 1), (1, 0), (1, 1)}, count = 1\<rparr>]\<rparr>" by code_simp
  have h3: "truthful {(1, 1)} 2 2 (AddKnowledge (0, 1) 1)" by code_simp
  have r1: "update_knowledge
      \<lparr>height = 2, width = 2, moves_made = {(0, 0)}, mines = {}, safes = {(0, 0)},
       knowledge = [\<lparr>cells = {(0, 1), (1, 0), (1, 1)}, count = 1\<rparr>]\<rparr>
     = Some \<lparr>height = 2, width = 2, moves_made = {(0, 0)}, mines = {}, safes = {(0, 0)},
       knowledge = [\<lparr>cells = {(0, 1), (1, 0), (1, 1)}, count = 1\<rparr>]\<rparr>" by code_simp
  have r2: "add_knowledge (0, 1) 1
      \<lparr>height = 2, width = 2, moves_made = {(0, 0)}, mines = {}, safes = {(0, 0)},
       knowledge = [\<lparr>cells = {(0, 1), (1, 0), (1, 1)}, count = 1\<rparr>]\<rparr>
     = Some \<lparr>height = 2, width = 2, moves_made = {(0, 0), (0, 1)}, mines = {}, safes = {(0, 0), (0, 1)},
       knowledge = [\<lparr>cells = {(1, 0), (1, 1)}, count = 1\<rparr>,
         \<lparr>cells = {(1, 0), (1, 1)}, count = 1\<rparr>]\<rparr>" by code_simp
  show ?thesis using update_knowledge_halts [OF h1 h2, of "(0, 1)" 1] h1 h2 h3 r1 r2 by simp
qed

text \<open>
  C3 as stated fails for states reached by observations that contradict each other.  On a
  2 by 4 board, \<open>(0, 1)\<close> revealed with count 1 and \<open>(1, 1)\<close> with count 2 leave two
  sentences over the same four cells with different counts; after \<open>(0, 3)\<close> and \<open>(1, 3)\<close>
  with count 1 there is a sentence over two of these cells, and the subsumption loop of the
  fourth call appends sentences with ever smaller counts and never ends.
\<close>

theorem update_knowledge_diverges_counterexample:
  "run [AddKnowledge (0, 1) 1, AddKnowledge (1, 1) 2, AddKnowledge (0, 3) 1] (init_ai 2 4)
     = Some \<lparr>height = 2, width = 4, moves_made = {(0, 1), (0, 3), (1, 1)}, mines = {}, safes = {(0, 1), (0, 3), (1, 1)},
       knowledge = [\<lparr>cells = {(0, 0), (0, 2), (1, 0), (1, 2)}, count = 1\<rparr>,
         \<lparr>cells = {(0, 0), (0, 2), (1, 0), (1, 2)}, count = 2\<rparr>,
         \<lparr>cells = {(0, 2), (1, 2), (1, 3)}, count = 1\<rparr>]\<rparr> \<and>
   record_observation (1, 3) 1
      \<lparr>height = 2, width = 4, moves_made = {(0, 1), (0, 3), (1, 1)}, mines = {}, safes = {(0, 1), (0, 3), (1, 1)},
       knowledge = [\<lparr>cells = {(0, 0), (0, 2), (1, 0), (1, 2)}, count = 1\<rparr>,
         \<lparr>cells = {(0, 0), (0, 2), (1, 0), (1, 2)}, count = 2\<rparr>,
         \<lparr>cells = {(0, 2), (1, 2), (1, 3)}, count = 1\<rparr>]\<rparr>
     = \<lparr>height = 2, width = 4, moves_made = {(0, 1), (0, 3), (1, 1), (1, 3)}, mines = {}, safes = {(0, 1), (0, 3), (1, 1), (1, 3)},
       knowledge = [\<lparr>cells = {(0, 0), (0, 2), (1, 0), (1, 2)}, count = 1\<rparr>,
         \<lparr>cells = {(0, 0), (0, 2), (1, 0), (1, 2)}, count = 2\<rparr>,
         \<lparr>cells = {(0, 2), (1, 2)}, count = 1\<rparr>,
         \<lparr>cells = {(0, 2), (1, 2)}, count = 1\<rparr>]\<rparr> \<and>
   update_knowledge
      \<lparr>height = 2, width = 4, moves_made = {(0, 1), (0, 3), (1, 1), (1, 3)}, mines = {}, safes = {(0, 1), (0, 3), (1, 1), (1, 3)},
       knowledge = [\<lparr>cells = {(0, 0), (0, 2), (1, 0), (1, 2)}, count = 1\<rparr>,
         \<lparr>cells = {(0, 0), (0, 2), (1, 0), (1, 2)}, count = 2\<rparr>,
         \<lparr>cells = {(0, 2), (1, 2)}, count = 1\<rparr>,
         \<lparr>cells = {(0, 2), (1, 2)}, count = 1\<rparr>]\<rparr>
     = None \<and>
   run [AddKnowledge (0, 1) 1, AddKnowledge (1, 1) 2, AddKnowledge (0, 3) 1,
        AddKnowledge (1, 3) 1] (init_ai 2 4) = None"
proof -
  let ?D = "\<lparr>height = 2, width = 4, moves_made = {(0, 1), (0, 3), (1, 1), (1, 3)}, mines = {}, safes = {(0, 1), (0, 3), (1, 1), (1, 3)},
       knowledge = [\<lparr>cells = {(0, 0), (0, 2), (1, 0), (1, 2)}, count = 1\<rparr>,
         \<lparr>cells = {(0, 0), (0, 2), (1, 0), (1, 2)}, count = 2\<rparr>,
         \<lparr>cells = {(0, 2), (1, 2)}, count = 1\<rparr>,
         \<lparr>cells = {(0, 2), (1, 2)}, count = 1\<rparr>]\<rparr>"
  have h1: "run [AddKnowledge (0, 1) 1, AddKnowledge (1, 1) 2, AddKnowledge (0, 3) 1] (init_ai 2 4)
     = Some \<lparr>height = 2, width = 4, moves_made = {(0, 1), (0, 3), (1, 1)}, mines = {}, safes = {(0, 1), (0, 3), (1, 1)},
       knowledge = [\<lparr>cells = {(0, 0), (0, 2), (1, 0), (1, 2)}, count = 1\<rparr>,
         \<lparr>cells = {(0, 0), (0, 2), (1, 0), (1, 2)}, count = 2\<rparr>,
         \<lparr>cells = {(0, 2), (1, 2), (1, 3)}, count = 1\<rparr>]\<rparr>" by code_simp
  have h2: "record_observation (1, 3) 1
      \<lparr>height = 2, width = 4, moves_made = {(0, 1), (0, 3), (1, 1)}, mines = {}, safes = {(0, 1), (0, 3), (1, 1)},
       knowledge = [\<lparr>cells = {(0, 0), (0, 2), (1, 0), (1, 2)}, count = 1\<rparr>,
         \<lparr>cells = {(0, 0), (0, 2), (1, 0), (1, 2)}, count = 2\<rparr>,
         \<lparr>cells = {(0, 2), (1, 2), (1, 3)}, count = 1\<rparr>]\<rparr>
     = ?D" by code_simp
  have h3: "extract_loop 0 (?D, False) = (?D, False)" by code_simp
  have h4: "drop_empty ?D = ?D" by code_simp
  have h5: "subsume_outer 0 (knowledge ?D, False) = None"
    by (rule drifting_pass_diverges [where X = "{(0, 2), (1, 2)}" and Y = "{(0, 0), (0, 2), (1, 0), (1, 2)}" and p = 1 and q = 2 and c = 1])
       auto
  have "inference_round ?D = None"
    by (simp only: inference_round_def Let_def h3 h4 fst_conv snd_conv h5 option.case)
  then have h6: "update_knowledge ?D = None"
    by (subst update_knowledge.simps) simp
  then have "add_knowledge (1, 3) 1
      \<lparr>height = 2, width = 4, moves_made = {(0, 1), (0, 3), (1, 1)}, mines = {}, safes = {(0, 1), (0, 3), (1, 1)},
       knowledge = [\<lparr>cells = {(0, 0), (0, 2), (1, 0), (1, 2)}, count = 1\<rparr>,
         \<lparr>cells = {(0, 0), (0, 2), (1, 0), (1, 2)}, count = 2\<rparr>,
         \<lparr>cells = {(0, 2), (1, 2), (1, 3)}, count = 1\<rparr>]\<rparr> = None"
    by (simp only: add_knowledge_def h2)
  then have "run [AddKnowledge (0, 1) 1, AddKnowledge (1, 1) 2, AddKnowledge (0, 3) 1,
        AddKnowledge (1, 3) 1] (init_ai 2 4) = None"
    using h1 by (auto split: option.splits)
  then show ?thesis using h1 h2 h6 by simp
qed

section \<open>The random move\<close>

lemma make_random_move_unfold:
  assumes "0 < height st" "0 < width st"
  shows "make_random_move st draws k =
     (if draws k \<notin> occupied st then Some (Inr (Some (draws k)))
      else if board_full st then Some (Inr None)
      else make_random_move st draws (Suc k))"
  using assms
  by (subst make_random_move.simps) (simp add: Let_def occupied_def board_full_def)

lemma make_random_move_result:
  assumes "make_random_move st draws k = Some r" "0 < height st" "0 < width st"
  shows "(\<exists>m \<ge> k. r = Inr (Some (draws m)) \<and> draws m \<notin> occupied st) \<or>
         (r = Inr None \<and> board_full st \<and> (\<exists>m \<ge> k. draws m \<in> occupied st))"
proof -
  define Q where "Q = (\<lambda>st (draws :: nat \<Rightarrow> cell) k (r :: error + cell option). 0 < height st \<and> 0 < width st \<longrightarrow>
     (\<exists>m \<ge> k. r = Inr (Some (draws m)) \<and> draws m \<notin> occupied st) \<or>
         (r = Inr None \<and> board_full st \<and> (\<exists>m \<ge> k. draws m \<in> occupied st)))"
  have "Q st draws k r"
  proof (rule make_random_move.raw_induct [where P = Q, OF _ assms(1)])
    fix f st and draws :: "nat \<Rightarrow> cell" and k r
    assume IH: "\<And>st draws k r. f st draws k = Some r \<Longrightarrow> Q st draws k r"
      and eq: "(if height st - 1 < 0 \<or> width st - 1 < 0 then Some (Inl ValueError)
      else let move = draws k
           in if move \<notin> moves_made st \<and> move \<notin> mines st then Some (Inr (Some move))
              else if int (card (moves_made st)) + int (card (mines st)) = height st * width st
                   then Some (Inr None)
                   else f st draws (Suc k)) = Some r"
    show "Q st draws k r"
      unfolding Q_def
    proof
      assume dims: "0 < height st \<and> 0 < width st"
      consider (free) "draws k \<notin> occupied st"
        | (full) "draws k \<in> occupied st" "board_full st"
        | (again) "draws k \<in> occupied st" "\<not> board_full st" by blast
      then show "(\<exists>m \<ge> k. r = Inr (Some (draws m)) \<and> draws m \<notin> occupied st) \<or>
         (r = Inr None \<and> board_full st \<and> (\<exists>m \<ge> k. draws m \<in> occupied st))"
      proof cases
        case free
        then have "r = Inr (Some (draws k))" using eq dims by (simp add: occupied_def Let_def)
        then show ?thesis using free by blast
      next
        case full
        then have "r = Inr None" using eq dims by (auto simp: occupied_def board_full_def Let_def)
        then show ?thesis using full by blast
      next
        case again
        then have "f st draws (Suc k) = Some r"
          using eq dims by (auto simp: occupied_def board_full_def Let_def)
        then have "Q st draws (Suc k) r" by (rule IH)
        then have "(\<exists>m \<ge> Suc k. r = Inr (Some (draws m)) \<and> draws m \<notin> occupied st) \<or>
         (r = Inr None \<and> board_full st \<and> (\<exists>m \<ge> Suc k. draws m \<in> occupied st))"
          using dims unfolding Q_def by blast
        then show ?thesis
        proof
          assume "\<exists>m \<ge> Suc k. r = Inr (Some (draws m)) \<and> draws m \<notin> occupied st"
          then obtain m where "Suc k \<le> m" "r = Inr (Some (draws m))" "draws m \<notin> occupied st"
            by blast
          then have "k \<le> m \<and> r = Inr (Some (draws m)) \<and> draws m \<notin> occupied st" by simp
          then show ?thesis by blast
        next
          assume "r = Inr None \<and> board_full st \<and> (\<exists>m \<ge> Suc k. draws m \<in> occupied st)"
          then show ?thesis using again by blast
        qed
      qed
    qed
  qed
  then show ?thesis using assms(2,3) unfolding Q_def by blast
qed

lemma make_random_move_stuck:
  assumes "0 < height st" "0 < width st" "\<not> board_full st"
    and "\<forall>m \<ge> k. draws m \<in> occupied st"
  shows "make_random_move st draws k = None"
proof (rule ccontr)
  assume "make_random_move st draws k \<noteq> None"
  then obtain r where "make_random_move st draws k = Some r" by blast
  from make_random_move_result [OF this assms(1,2)] show False using assms(3,4) by blast
qed

lemma make_random_move_hits:
  assumes "0 < height st" "0 < width st" "\<not> board_full st" "k \<le> m" "draws m \<notin> occupied st"
  shows "\<exists>mv. make_random_move st draws k = Some (Inr (Some mv))"
  using assms(4)
proof (induction "m - k" arbitrary: k)
  case 0
  then have "k = m" by simp
  then show ?case using assms(5) make_random_move_unfold [OF assms(1,2), of draws k] by simp
next
  case (Suc d)
  then have "d = m - Suc k" "Suc k \<le> m" by simp_all
  then obtain mv where "make_random_move st draws (Suc k) = Some (Inr (Some mv))"
    using Suc.hyps(1) by blast
  then show ?case
    using assms(3) make_random_move_unfold [OF assms(1,2), of draws k] by simp
qed

lemma card_board: "0 \<le> h \<Longrightarrow> 0 \<le> w \<Longrightarrow> int (card (board h w)) = h * w"
  by (simp add: board_def card_cartesian_product)

lemma board_full_iff:
  assumes "0 < height st" "0 < width st" "occupied st \<subseteq> board (height st) (width st)"
    "moves_made st \<inter> mines st = {}"
  shows "board_full st \<longleftrightarrow> occupied st = board (height st) (width st)"
proof -
  have fin: "finite (moves_made st)" "finite (mines st)"
    using assms(3) finite_board finite_subset unfolding occupied_def by blast+
  have "card (occupied st) = card (moves_made st) + card (mines st)"
    unfolding occupied_def using fin assms(4) by (rule card_Un_disjoint)
  then have "board_full st \<longleftrightarrow> card (occupied st) = card (board (height st) (width st))"
    using card_board [of "height st" "width st"] assms(1,2) unfolding board_full_def by linarith
  also have "\<dots> \<longleftrightarrow> occupied st = board (height st) (width st)"
    using assms(3) finite_board by (metis card_subset_eq)
  finally show ?thesis .
qed

text \<open>
  C9 (amended).  On a board with positive height and width, in a state where \<open>moves_made\<close>
  and \<open>mines\<close> are disjoint sets of board cells, and for draws inside the board:
  when \<open>make_random_move\<close> returns, it returns \<open>None\<close> or a board cell that is in neither
  set; it returns \<open>None\<close> exactly when the two sizes add up to width times height; it
  returns a cell when some draw from the current one on is in neither set; and it does not
  return when no such draw comes although the sizes do not add up to width times height.
\<close>

theorem make_random_move_contract:
  assumes "0 < height st" "0 < width st"
    and "moves_made st \<union> mines st \<subseteq> board (height st) (width st)"
    and "moves_made st \<inter> mines st = {}"
    and "\<forall>m. draws m \<in> board (height st) (width st)"
  shows "(make_random_move st draws k = Some r \<longrightarrow>
            r = Inr None \<or>
            (\<exists>mv. r = Inr (Some mv) \<and> mv \<in> board (height st) (width st) \<and>
                  mv \<notin> moves_made st \<and> mv \<notin> mines st)) \<and>
         (make_random_move st draws k = Some (Inr None) \<longleftrightarrow>
            int (card (moves_made st)) + int (card (mines st)) = height st * width st) \<and>
         ((\<exists>m \<ge> k. draws m \<notin> moves_made st \<and> draws m \<notin> mines st) \<longrightarrow>
            (\<exists>mv. make_random_move st draws k = Some (Inr (Some mv)))) \<and>
         ((\<forall>m \<ge> k. draws m \<in> moves_made st \<union> mines st) \<and>
          int (card (moves_made st)) + int (card (mines st)) \<noteq> height st * width st \<longrightarrow>
            make_random_move st draws k = None)"
proof (intro conjI impI)
  assume "make_random_move st draws k = Some r"
  from make_random_move_result [OF this assms(1,2)] assms(5)
  show "r = Inr None \<or>
            (\<exists>mv. r = Inr (Some mv) \<and> mv \<in> board (height st) (width st) \<and>
                  mv \<notin> moves_made st \<and> mv \<notin> mines st)"
    unfolding occupied_def by blast
next
  have occ: "occupied st \<subseteq> board (height st) (width st)" using assms(3) by (simp add: occupied_def)
  note full = board_full_iff [OF assms(1,2) occ assms(4)]
  show "make_random_move st draws k = Some (Inr None) \<longleftrightarrow>
            int (card (moves_made st)) + int (card (mines st)) = height st * width st"
  proof
    assume "make_random_move st draws k = Some (Inr None)"
    from make_random_move_result [OF this assms(1,2)] have "board_full st" by blast
    then show "int (card (moves_made st)) + int (card (mines st)) = height st * width st"
      by (simp add: board_full_def)
  next
    assume "int (card (moves_made st)) + int (card (mines st)) = height st * width st"
    then have bf: "board_full st" by (simp add: board_full_def)
    then have "draws k \<in> occupied st" using full assms(5) by blast
    then show "make_random_move st draws k = Some (Inr None)"
      using bf make_random_move_unfold [OF assms(1,2), of draws k] by simp
  qed
  assume "\<exists>m \<ge> k. draws m \<notin> moves_made st \<and> draws m \<notin> mines st"
  then obtain m where m: "k \<le> m" "draws m \<notin> occupied st" unfolding occupied_def by blast
  have "draws m \<in> board (height st) (width st)" using assms(5) by blast
  then have "\<not> board_full st" using full m(2) by blast
  then show "\<exists>mv. make_random_move st draws k = Some (Inr (Some mv))"
    using make_random_move_hits [of st k m draws] assms(1,2) m by blast
next
  assume "(\<forall>m \<ge> k. draws m \<in> moves_made st \<union> mines st) \<and>
          int (card (moves_made st)) + int (card (mines st)) \<noteq> height st * width st"
  then show "make_random_move st draws k = None"
    using make_random_move_stuck [OF assms(1,2), of k draws]
    by (simp add: occupied_def board_full_def)
qed


theorem make_random_move_contract_witness:
  "(\<forall>m. cycle_draws 3 m \<in> board 1 3) \<and>
   run [AddKnowledge (0, 0) 0] (init_ai 1 3)
     = Some \<lparr>height = 1, width = 3, moves_made = {(0, 0)}, mines = {}, safes = {(0, 0), (0, 1)}, knowledge = []\<rparr> \<and>
   make_random_move
      \<lparr>height = 1, width = 3, moves_made = {(0, 0)}, mines = {}, safes = {(0, 0), (0, 1)}, knowledge = []\<rparr> (cycle_draws 3) 0
     = Some (Inr (Some (0, 1))) \<and>
   (0, 1) \<in> board 1 3 \<and>
   make_random_move
      \<lparr>height = 1, width = 3, moves_made = {(0, 0)}, mines = {}, safes = {(0, 0), (0, 1)}, knowledge = []\<rparr> (constant_draws (0, 0)) 0
     = None"
proof -
  let ?st = "\<lparr>height = 1, width = 3, moves_made = {(0, 0)}, mines = {}, safes = {(0, 0), (0, 1)}, knowledge = []\<rparr>"
  have d: "\<forall>m. cycle_draws 3 m \<in> board (height ?st) (width ?st)"
    by (simp add: cycle_draws_def board_def)
  have h: "0 < height ?st" "0 < width ?st"
    "moves_made ?st \<union> mines ?st \<subseteq> board (height ?st) (width ?st)"
    "moves_made ?st \<inter> mines ?st = {}"
    by (simp_all add: board_def)
  have r: "run [AddKnowledge (0, 0) 0] (init_ai 1 3) = Some ?st" by code_simp
  have e: "make_random_move ?st (cycle_draws 3) 0 = Some (Inr (Some (0, 1)))" by code_simp
  have dc: "\<forall>m. constant_draws (0, 0) m \<in> board (height ?st) (width ?st)"
    by (simp add: constant_draws_def board_def)
  have s: "(\<forall>m \<ge> 0. constant_draws (0, 0) m \<in> moves_made ?st \<union> mines ?st) \<and>
          int (card (moves_made ?st)) + int (card (mines ?st)) \<noteq> height ?st * width ?st"
    by (simp add: constant_draws_def)
  have n: "make_random_move ?st (constant_draws (0, 0)) 0 = None"
    using make_random_move_contract [OF h dc, of 0 "Inr None"] s by blast
  have b: "(0, 1) \<in> board 1 3"
    using make_random_move_contract [OF h d, of 0 "Inr (Some (0, 1))"] e by simp
  show ?thesis using d r e b n by simp
qed

text \<open>
  C9 as stated fails twice.  With one move made on a 1 by 3 board and a stream that draws
  that cell every time, the loop never returns.  And after \<open>mark_mine\<close> and \<open>add_knowledge\<close>
  on the same cell of a 1 by 2 board the sizes add up to 2 while \<open>(0, 0)\<close> is free, so a
  cell is returned although the not-found condition holds.
\<close>

theorem make_random_move_counterexample:
  "run [AddKnowledge (0, 0) 0] (init_ai 1 3)
     = Some \<lparr>height = 1, width = 3, moves_made = {(0, 0)}, mines = {}, safes = {(0, 0), (0, 1)}, knowledge = []\<rparr> \<and>
   make_random_move
      \<lparr>height = 1, width = 3, moves_made = {(0, 0)}, mines = {}, safes = {(0, 0), (0, 1)}, knowledge = []\<rparr> (constant_draws (0, 0)) 0
     = None \<and>
   run [MarkMine (0, 1), AddKnowledge (0, 1) 0] (init_ai 1 2)
     = Some \<lparr>height = 1, width = 2, moves_made = {(0, 1)}, mines = {(0, 1)}, safes = {(0, 0), (0, 1)}, knowledge = []\<rparr> \<and>
   make_random_move
      \<lparr>height = 1, width = 2, moves_made = {(0, 1)}, mines = {(0, 1)}, safes = {(0, 0), (0, 1)}, knowledge = []\<rparr> (constant_draws (0, 0)) 0
     = Some (Inr (Some (0, 0))) \<and>
   int (card (moves_made \<lparr>height = 1, width = 2, moves_made = {(0, 1)}, mines = {(0, 1)}, safes = {(0, 0), (0, 1)}, knowledge = []\<rparr>)) +
   int (card (mines \<lparr>height = 1, width = 2, moves_made = {(0, 1)}, mines = {(0, 1)}, safes = {(0, 0), (0, 1)}, knowledge = []\<rparr>))
     = height \<lparr>height = 1, width = 2, moves_made = {(0, 1)}, mines = {(0, 1)}, safes = {(0, 0), (0, 1)}, knowledge = []\<rparr> *
       width \<lparr>height = 1, width = 2, moves_made = {(0, 1)}, mines = {(0, 1)}, safes = {(0, 0), (0, 1)}, knowledge = []\<rparr>"
proof -
  let ?st = "\<lparr>height = 1, width = 3, moves_made = {(0, 0)}, mines = {}, safes = {(0, 0), (0, 1)}, knowledge = []\<rparr>"
  have r1: "run [AddKnowledge (0, 0) 0] (init_ai 1 3) = Some ?st" by code_simp
  have n: "make_random_move ?st (constant_draws (0, 0)) 0 = None"
    by (rule make_random_move_stuck) (simp_all add: board_full_def occupied_def constant_draws_def)
  have r2: "run [MarkMine (0, 1), AddKnowledge (0, 1) 0] (init_ai 1 2)
     = Some \<lparr>height = 1, width = 2, moves_made = {(0, 1)}, mines = {(0, 1)}, safes = {(0, 0), (0, 1)}, knowledge = []\<rparr>" by code_simp
  have e: "make_random_move
      \<lparr>height = 1, width = 2, moves_made = {(0, 1)}, mines = {(0, 1)}, safes = {(0, 0), (0, 1)}, knowledge = []\<rparr> (constant_draws (0, 0)) 0
     = Some (Inr (Some (0, 0)))" by code_simp
  show ?thesis using r1 n r2 e by simp
qed

section \<open>Extraction is complete\<close>

lemma length_knowledge_extract_upto:
  "length (knowledge (fst (extract_upto k x))) = length (knowledge (fst x))"
  by (induction k) (simp_all add: length_knowledge_extract_sentence)

lemma extract_loop_upto:
  "k \<le> length (knowledge (fst x)) \<Longrightarrow> extract_loop k (extract_upto k x) = extract_loop 0 x"
proof (induction k)
  case 0
  show ?case by simp
next
  case (Suc k)
  have lt: "k < length (knowledge (fst (extract_upto k x)))"
    using Suc.prems by (simp add: length_knowledge_extract_upto)
  have "extract_loop k (extract_upto k x) = extract_loop (Suc k) (extract_sentence k (extract_upto k x))"
    using lt by (subst extract_loop.simps) simp
  then show ?case using Suc by simp
qed

lemma extract_upto_rule:
  assumes "P x"
    and "\<And>y s. P y \<Longrightarrow> s \<in> set (knowledge (fst y)) \<Longrightarrow> P (resolve_sentence s y)"
    and "\<And>y s. P y \<Longrightarrow> s \<in> set (knowledge (fst y)) \<Longrightarrow> finite (cells s)"
    and "k \<le> length (knowledge (fst x))"
  shows "P (extract_upto k x)"
  using assms(4)
proof (induction k)
  case 0
  show ?case using assms(1) by simp
next
  case (Suc k)
  let ?y = "extract_upto k x"
  have P: "P ?y" using Suc by simp
  have lt: "k < length (knowledge (fst ?y))"
    using Suc.prems by (simp add: length_knowledge_extract_upto)
  have "extract_sentence k ?y = resolve_sentence (knowledge (fst ?y) ! k) ?y"
    using lt assms(3) [OF P] by (intro extract_sentence_eq) auto
  then show ?case using assms(2) [OF P, of "knowledge (fst ?y) ! k"] lt by simp
qed

lemma pending_resolve_sentence:
  assumes "consistent M (fst y)" "t \<in> set (knowledge (fst y))" "pending M c (fst y)"
  shows "pending M c (fst (resolve_sentence t y))"
proof -
  have h: "sentence_holds M t" "finite (cells t)" using assms(1,2) by (auto simp: consistent_def)
  have "resolve_sentence t y = y \<or>
        (cells t \<noteq> {} \<and> count t = 0 \<and>
         resolve_sentence t y = (resolve_safe (cells t) (fst y), True)) \<or>
        (cells t \<noteq> {} \<and> count t = int (card (cells t)) \<and>
         resolve_sentence t y = (resolve_mine (cells t) (fst y), True))"
    by (simp add: resolve_sentence_def)
  then consider (same) "resolve_sentence t y = y"
    | (safe) "cells t \<noteq> {}" "count t = 0" "resolve_sentence t y = (resolve_safe (cells t) (fst y), True)"
    | (mine) "cells t \<noteq> {}" "count t = int (card (cells t))"
        "resolve_sentence t y = (resolve_mine (cells t) (fst y), True)"
    by blast
  then show ?thesis
  proof cases
    case same
    then show ?thesis using assms(3) by simp
  next
    case safe
    have tM: "cells t \<inter> M = {}" using holds_count_zero [OF h safe(2)] .
    show ?thesis
    proof (cases "c \<in> M")
      case True
      then have "c \<in> mines (fst y) \<or> (\<exists>s \<in> set (knowledge (fst y)). c \<in> cells s \<and> cells s \<subseteq> M)"
        using assms(3) by (simp add: pending_def)
      then show ?thesis
      proof
        assume "c \<in> mines (fst y)"
        then show ?thesis using True safe(3) by (simp add: pending_def resolve_safe_def)
      next
        assume "\<exists>s \<in> set (knowledge (fst y)). c \<in> cells s \<and> cells s \<subseteq> M"
        then obtain s where s: "s \<in> set (knowledge (fst y))" "c \<in> cells s" "cells s \<subseteq> M" by blast
        have "mark_all_safe (cells t) s \<in> set (knowledge (resolve_safe (cells t) (fst y)))"
          using s(1) by (simp add: resolve_safe_def)
        moreover have "c \<in> cells (mark_all_safe (cells t) s)" "cells (mark_all_safe (cells t) s) \<subseteq> M"
          using s(2,3) True tM by (auto simp: mark_all_safe_def)
        ultimately show ?thesis using True safe(3) unfolding pending_def by auto
      qed
    next
      case False
      then have "c \<in> safes (fst y) \<or> (\<exists>s \<in> set (knowledge (fst y)). c \<in> cells s \<and> cells s \<inter> M = {})"
        using assms(3) by (simp add: pending_def)
      then show ?thesis
      proof
        assume "c \<in> safes (fst y)"
        then show ?thesis using False safe(3) by (simp add: pending_def resolve_safe_def)
      next
        assume "\<exists>s \<in> set (knowledge (fst y)). c \<in> cells s \<and> cells s \<inter> M = {}"
        then obtain s where s: "s \<in> set (knowledge (fst y))" "c \<in> cells s" "cells s \<inter> M = {}" by blast
        show ?thesis
        proof (cases "c \<in> cells t")
          case True
          then show ?thesis using False safe(3) by (simp add: pending_def resolve_safe_def)
        next
          case nt: False
          have "mark_all_safe (cells t) s \<in> set (knowledge (resolve_safe (cells t) (fst y)))"
            using s(1) by (simp add: resolve_safe_def)
          moreover have "c \<in> cells (mark_all_safe (cells t) s)"
            "cells (mark_all_safe (cells t) s) \<inter> M = {}"
            using s(2,3) nt by (auto simp: mark_all_safe_def)
          ultimately show ?thesis using False safe(3) unfolding pending_def by auto
        qed
      qed
    qed
  next
    case mine
    have tM: "cells t \<subseteq> M" using holds_count_full [OF h mine(2)] .
    show ?thesis
    proof (cases "c \<in> M")
      case True
      then have "c \<in> mines (fst y) \<or> (\<exists>s \<in> set (knowledge (fst y)). c \<in> cells s \<and> cells s \<subseteq> M)"
        using assms(3) by (simp add: pending_def)
      then show ?thesis
      proof
        assume "c \<in> mines (fst y)"
        then show ?thesis using True mine(3) by (simp add: pending_def resolve_mine_def)
      next
        assume "\<exists>s \<in> set (knowledge (fst y)). c \<in> cells s \<and> cells s \<subseteq> M"
        then obtain s where s: "s \<in> set (knowledge (fst y))" "c \<in> cells s" "cells s \<subseteq> M" by blast
        show ?thesis
        proof (cases "c \<in> cells t")
          case True
          then show ?thesis using \<open>c \<in> M\<close> mine(3) by (simp add: pending_def resolve_mine_def)
        next
          case nt: False
          have "mark_all_mine (cells t) s \<in> set (knowledge (resolve_mine (cells t) (fst y)))"
            using s(1) by (simp add: resolve_mine_def)
          moreover have "c \<in> cells (mark_all_mine (cells t) s)"
            "cells (mark_all_mine (cells t) s) \<subseteq> M"
            using s(2,3) nt by (auto simp: mark_all_mine_def)
          ultimately show ?thesis using \<open>c \<in> M\<close> mine(3) unfolding pending_def by auto
        qed
      qed
    next
      case False
      then have "c \<in> safes (fst y) \<or> (\<exists>s \<in> set (knowledge (fst y)). c \<in> cells s \<and> cells s \<inter> M = {})"
        using assms(3) by (simp add: pending_def)
      then show ?thesis
      proof
        assume "c \<in> safes (fst y)"
        then show ?thesis using False mine(3) by (simp add: pending_def resolve_mine_def)
      next
        assume "\<exists>s \<in> set (knowledge (fst y)). c \<in> cells s \<and> cells s \<inter> M = {}"
        then obtain s where s: "s \<in> set (knowledge (fst y))" "c \<in> cells s" "cells s \<inter> M = {}" by blast
        have "mark_all_mine (cells t) s \<in> set (knowledge (resolve_mine (cells t) (fst y)))"
          using s(1) by (simp add: resolve_mine_def)
        moreover have "c \<in> cells (mark_all_mine (cells t) s)"
          "cells (mark_all_mine (cells t) s) \<inter> M = {}"
          using s(2,3) False tM by (auto simp: mark_all_mine_def)
        ultimately show ?thesis using False mine(3) unfolding pending_def by auto
      qed
    qed
  qed
qed

lemma pending_initial:
  assumes "consistent M st" "s \<in> set (knowledge st)" "c \<in> cells s"
    "count s = int (card (cells s)) \<or> count s = 0"
  shows "pending M c st"
proof -
  have h: "sentence_holds M s" "finite (cells s)" using assms(1,2) by (auto simp: consistent_def)
  have ne: "card (cells s) \<noteq> 0" using assms(3) h(2) by auto
  from assms(4) show ?thesis
  proof
    assume "count s = int (card (cells s))"
    then have "cells s \<subseteq> M" using holds_count_full [OF h] by simp
    then show ?thesis using assms(2,3) unfolding pending_def by auto
  next
    assume "count s = 0"
    then have "cells s \<inter> M = {}" using holds_count_zero [OF h] by simp
    then show ?thesis using assms(2,3) unfolding pending_def by auto
  qed
qed

lemma pending_settled:
  assumes "consistent M st" "settled st" "pending M c st"
  shows "if c \<in> M then c \<in> mines st else c \<in> safes st"
proof -
  have no: "\<not> (c \<in> cells s \<and> (cells s \<subseteq> M \<or> cells s \<inter> M = {}))"
    if s: "s \<in> set (knowledge st)" for s
  proof
    assume a: "c \<in> cells s \<and> (cells s \<subseteq> M \<or> cells s \<inter> M = {})"
    have h: "count s = int (card (cells s \<inter> M))" "finite (cells s)"
      using assms(1) s by (auto simp: consistent_def sentence_holds_def)
    have k: "known_safes s = {}" "known_mines s = {}" "cells s \<noteq> {}"
      using assms(2) s by (auto simp: settled_def)
    from a have "cells s \<subseteq> M \<or> cells s \<inter> M = {}" by simp
    then show False
    proof
      assume "cells s \<subseteq> M"
      then have "cells s \<inter> M = cells s" by auto
      then have "count s = int (card (cells s))" using h(1) by simp
      then show False using k(2,3) by (simp add: known_mines_def)
    next
      assume "cells s \<inter> M = {}"
      then have "count s = 0" using h(1) by simp
      then show False using k(1,3) by (simp add: known_safes_def)
    qed
  qed
  show ?thesis using assms(3) no unfolding pending_def by (auto split: if_splits)
qed

lemma pending_mono:
  assumes "pending M c st" "mines st \<subseteq> mines st'" "safes st \<subseteq> safes st'"
    "\<forall>s \<in> set (knowledge st). cells s \<noteq> {} \<longrightarrow> s \<in> set (knowledge st')"
  shows "pending M c st'"
  using assms unfolding pending_def by (auto split: if_splits)

lemma pending_extract_loop:
  assumes "consistent M (fst x)" "pending M c (fst x)"
  shows "pending M c (fst (extract_loop i x))"
proof -
  have "consistent M (fst (extract_loop i x)) \<and> pending M c (fst (extract_loop i x))"
    by (rule extract_loop_rule [where P = "\<lambda>y. consistent M (fst y) \<and> pending M c (fst y)"])
       (auto simp: assms consistent_resolve_sentence pending_resolve_sentence consistent_finite)
  then show ?thesis by simp
qed

lemma extract_upto_consistent:
  assumes "consistent M (fst x)" "k \<le> length (knowledge (fst x))"
  shows "consistent M (fst (extract_upto k x))"
  by (rule extract_upto_rule [where P = "\<lambda>y. consistent M (fst y)", OF _ _ _ assms(2)])
     (auto simp: assms(1) consistent_resolve_sentence consistent_finite)

lemma pending_round_tail:
  assumes "inference_round p = Some x"
    and "pending M c (drop_empty (fst (extract_loop 0 (p, False))))"
  shows "pending M c (fst x)"
proof -
  from assms(1) obtain x1 st2 x2 where r:
    "x1 = extract_loop 0 (p, False)" "st2 = drop_empty (fst x1)"
    "subsume_outer 0 (knowledge st2, snd x1) = Some x2"
    "x = (st2\<lparr>knowledge := fst x2\<rparr>, snd x2)"
    by (rule inference_round_parts)
  have "set (knowledge st2) \<subseteq> set (fst x2)" using subsume_outer_set_mono [OF r(3)] by simp
  have "pending M c st2" using assms(2) r(1,2) by simp
  then show ?thesis
  proof (rule pending_mono)
    show "mines st2 \<subseteq> mines (fst x)" "safes st2 \<subseteq> safes (fst x)" using r(4) by simp_all
    show "\<forall>s \<in> set (knowledge st2). cells s \<noteq> {} \<longrightarrow> s \<in> set (knowledge (fst x))"
      using \<open>set (knowledge st2) \<subseteq> set (fst x2)\<close> r(4) by auto
  qed
qed

lemma pending_drop_empty: "pending M c st \<Longrightarrow> pending M c (drop_empty st)"
  by (rule pending_mono) (auto simp: drop_empty_def)

lemma pending_inference_round:
  assumes "consistent M p" "pending M c p" "inference_round p = Some x"
  shows "pending M c (fst x)"
proof -
  have "pending M c (fst (extract_loop 0 (p, False)))"
    using assms(1,2) by (intro pending_extract_loop) simp_all
  then have "pending M c (drop_empty (fst (extract_loop 0 (p, False))))"
    by (rule pending_drop_empty)
  then show ?thesis by (rule pending_round_tail [OF assms(3)])
qed

lemma pending_update_knowledge:
  assumes "consistent M p" "pending M c p" "update_knowledge p = Some fin"
  shows "pending M c fin"
proof -
  have "consistent M fin \<and> pending M c fin"
    by (rule update_knowledge_invariant [OF assms(3), where P = "\<lambda>q. consistent M q \<and> pending M c q"])
       (auto simp: assms intro: inference_round_consistent pending_inference_round)
  then show ?thesis by simp
qed

lemma update_knowledge_unfold:
  assumes "update_knowledge p = Some fin"
  obtains x where "inference_round p = Some x"
    "if snd x then update_knowledge (fst x) = Some fin else fst x = fin"
proof -
  from assms have "(case inference_round p of None \<Rightarrow> None
      | Some x \<Rightarrow> if snd x then update_knowledge (fst x) else Some (fst x)) = Some fin"
    by (subst (asm) update_knowledge.simps) simp
  then show ?thesis using that by (auto split: option.splits if_splits)
qed

lemma round_start_same_result:
  assumes "round_start st p" "update_knowledge st = Some fin"
  shows "update_knowledge p = Some fin"
  using assms
proof (induction rule: round_start.induct)
  case first_round
  then show ?case by simp
next
  case (next_round p p')
  then have u: "update_knowledge p = Some fin" by simp
  from update_knowledge_unfold [OF u] obtain x where
    "inference_round p = Some x" "if snd x then update_knowledge (fst x) = Some fin else fst x = fin"
    by blast
  then show ?case using next_round.hyps(2) by auto
qed

lemma round_start_consistent:
  assumes "round_start st p" "consistent M st"
  shows "consistent M p"
  using assms
proof (induction rule: round_start.induct)
  case first_round
  then show ?case by simp
next
  case (next_round p p')
  then show ?case using inference_round_consistent [of M p "(p', True)"] by simp
qed

lemma pending_round_result:
  assumes "update_knowledge p = Some fin" "inference_round p = Some x"
    "consistent M p" "pending M c (fst x)"
  shows "pending M c fin"
proof -
  from update_knowledge_unfold [OF assms(1)] obtain x' where
    x': "inference_round p = Some x'" "if snd x' then update_knowledge (fst x') = Some fin else fst x' = fin"
    by blast
  have xx: "x' = x" using x'(1) assms(2) by simp
  have c: "consistent M (fst x)" using assms(2,3) by (rule inference_round_consistent [rotated])
  show ?thesis
  proof (cases "snd x")
    case True
    then show ?thesis using x'(2) xx pending_update_knowledge [OF c assms(4)] by simp
  next
    case False
    then show ?thesis using x'(2) xx assms(4) by simp
  qed
qed

lemma visited_consistent:
  assumes "visited st q" "consistent M st"
  shows "consistent M q"
  using assms(1)
proof (cases rule: visited.cases)
  case (in_extraction p k)
  have "consistent M p" using in_extraction(2) assms(2) by (rule round_start_consistent)
  then show ?thesis using in_extraction(1,3) by (simp add: extract_upto_consistent)
next
  case (after_collection p)
  have "consistent M p" using after_collection(2) assms(2) by (rule round_start_consistent)
  then show ?thesis
    using after_collection(1) consistent_extract_loop [of M "(p, False)" 0]
    by (simp add: consistent_drop_empty)
next
  case (in_subsumption p x m)
  have "consistent M p" using in_subsumption(2) assms(2) by (rule round_start_consistent)
  then have "consistent M (fst x)" using in_subsumption(3) by (rule inference_round_consistent)
  then show ?thesis
    using in_subsumption(1) unfolding consistent_def by (auto dest: in_set_takeD)
qed

lemma visited_pending:
  assumes "visited st q" "consistent M st" "update_knowledge st = Some fin" "pending M c q"
  shows "pending M c fin"
  using assms(1)
proof (cases rule: visited.cases)
  case (in_extraction p k)
  have cp: "consistent M p" using in_extraction(2) assms(2) by (rule round_start_consistent)
  have up: "update_knowledge p = Some fin"
    using in_extraction(2) assms(3) by (rule round_start_same_result)
  from update_knowledge_unfold [OF up] obtain x where x: "inference_round p = Some x" by blast
  let ?y = "extract_upto k (p, False)"
  have "consistent M (fst ?y)" using cp in_extraction(3) by (simp add: extract_upto_consistent)
  moreover have "pending M c (fst ?y)" using assms(4) in_extraction(1) by simp
  ultimately have "pending M c (fst (extract_loop k ?y))" by (rule pending_extract_loop)
  then have "pending M c (fst (extract_loop 0 (p, False)))"
    using extract_loop_upto [of k "(p, False)"] in_extraction(3) by simp
  then have "pending M c (drop_empty (fst (extract_loop 0 (p, False))))"
    by (rule pending_drop_empty)
  then have "pending M c (fst x)" by (rule pending_round_tail [OF x])
  then show ?thesis by (rule pending_round_result [OF up x cp])
next
  case (after_collection p)
  have cp: "consistent M p" using after_collection(2) assms(2) by (rule round_start_consistent)
  have up: "update_knowledge p = Some fin"
    using after_collection(2) assms(3) by (rule round_start_same_result)
  from update_knowledge_unfold [OF up] obtain x where x: "inference_round p = Some x" by blast
  have "pending M c (drop_empty (fst (extract_loop 0 (p, False))))"
    using assms(4) after_collection(1) by simp
  then have "pending M c (fst x)" by (rule pending_round_tail [OF x])
  then show ?thesis by (rule pending_round_result [OF up x cp])
next
  case (in_subsumption p x m)
  have cp: "consistent M p" using in_subsumption(2) assms(2) by (rule round_start_consistent)
  have up: "update_knowledge p = Some fin"
    using in_subsumption(2) assms(3) by (rule round_start_same_result)
  have "pending M c (fst x)"
  proof (rule pending_mono [OF assms(4)])
    show "mines q \<subseteq> mines (fst x)" "safes q \<subseteq> safes (fst x)"
      using in_subsumption(1) by simp_all
    show "\<forall>s \<in> set (knowledge q). cells s \<noteq> {} \<longrightarrow> s \<in> set (knowledge (fst x))"
      using in_subsumption(1) by (auto dest: in_set_takeD)
  qed
  then show ?thesis by (rule pending_round_result [OF up in_subsumption(3) cp])
qed

text \<open>
  C2 (amended).  When \<open>update_knowledge\<close> returns, no sentence of \<open>knowledge\<close> is without
  cells, has count 0, or has a count equal to the number of its cells.  In a run that
  starts in a state consistent with a mine assignment, every cell of a sentence that has
  count equal to its number of cells at some visited point of the run is in \<open>mines\<close> when
  \<open>update_knowledge\<close> returns, and every cell of a sentence that has count 0 at some
  visited point is in \<open>safes\<close>.
\<close>

theorem extraction_complete:
  "(update_knowledge st = Some fin \<and> t \<in> set (knowledge fin) \<longrightarrow>
      cells t \<noteq> {} \<and> count t \<noteq> 0 \<and> count t \<noteq> int (card (cells t))) \<and>
   (consistent M st \<and> update_knowledge st = Some fin \<and> visited st q \<and>
    s \<in> set (knowledge q) \<longrightarrow>
      (count s = int (card (cells s)) \<longrightarrow> cells s \<subseteq> mines fin) \<and>
      (count s = 0 \<longrightarrow> cells s \<subseteq> safes fin))"
proof (intro conjI impI)
  assume a: "update_knowledge st = Some fin \<and> t \<in> set (knowledge fin)"
  then have "settled fin" using update_knowledge_settled by blast
  then have "cells t \<noteq> {} \<and> count t \<noteq> 0 \<and> count t \<noteq> int (card (cells t))"
    using a by (simp add: settled_counts)
  then show "cells t \<noteq> {}" "count t \<noteq> 0" "count t \<noteq> int (card (cells t))" by simp_all
next
  assume a: "consistent M st \<and> update_knowledge st = Some fin \<and> visited st q \<and>
    s \<in> set (knowledge q)"
  assume full: "count s = int (card (cells s))"
  have cq: "consistent M q" using a visited_consistent by blast
  have fin: "consistent M fin" "settled fin"
    using a update_knowledge_consistent update_knowledge_settled by blast+
  have "sentence_holds M s" "finite (cells s)" using cq a by (auto simp: consistent_def)
  then have sM: "cells s \<subseteq> M" using full by (rule holds_count_full)
  show "cells s \<subseteq> mines fin"
  proof
    fix c assume c: "c \<in> cells s"
    have "pending M c q" using cq a c full pending_initial [of M q s c] by blast
    then have "pending M c fin" using a visited_pending [of st q M fin c] by blast
    then have "if c \<in> M then c \<in> mines fin else c \<in> safes fin"
      by (rule pending_settled [OF fin])
    moreover have "c \<in> M" using c sM by blast
    ultimately show "c \<in> mines fin" by simp
  qed
next
  assume a: "consistent M st \<and> update_knowledge st = Some fin \<and> visited st q \<and>
    s \<in> set (knowledge q)"
  assume zero: "count s = 0"
  have cq: "consistent M q" using a visited_consistent by blast
  have fin: "consistent M fin" "settled fin"
    using a update_knowledge_consistent update_knowledge_settled by blast+
  have "sentence_holds M s" "finite (cells s)" using cq a by (auto simp: consistent_def)
  then have sM: "cells s \<inter> M = {}" using zero by (rule holds_count_zero)
  show "cells s \<subseteq> safes fin"
  proof
    fix c assume c: "c \<in> cells s"
    have "pending M c q" using cq a c zero pending_initial [of M q s c] by blast
    then have "pending M c fin" using a visited_pending [of st q M fin c] by blast
    then have "if c \<in> M then c \<in> mines fin else c \<in> safes fin"
      by (rule pending_settled [OF fin])
    moreover have "c \<notin> M" using c sM by blast
    ultimately show "c \<in> safes fin" by simp
  qed
qed

theorem extraction_complete_witness:
  "consistent {(0, 1)}
      \<lparr>height = 1, width = 2, moves_made = {(0, 0)}, mines = {}, safes = {(0, 0)},
       knowledge = [\<lparr>cells = {(0, 1)}, count = 1\<rparr>]\<rparr> \<and>
   update_knowledge
      \<lparr>height = 1, width = 2, moves_made = {(0, 0)}, mines = {}, safes = {(0, 0)},
       knowledge = [\<lparr>cells = {(0, 1)}, count = 1\<rparr>]\<rparr>
     = Some \<lparr>height = 1, width = 2, moves_made = {(0, 0)}, mines = {(0, 1)}, safes = {(0, 0)},
       knowledge = []\<rparr> \<and>
   visited
      \<lparr>height = 1, width = 2, moves_made = {(0, 0)}, mines = {}, safes = {(0, 0)},
       knowledge = [\<lparr>cells = {(0, 1)}, count = 1\<rparr>]\<rparr>
      \<lparr>height = 1, width = 2, moves_made = {(0, 0)}, mines = {}, safes = {(0, 0)},
       knowledge = [\<lparr>cells = {(0, 1)}, count = 1\<rparr>]\<rparr> \<and>
   cells \<lparr>cells = {(0, 1)}, count = 1\<rparr> \<subseteq> mines \<lparr>height = 1, width = 2, moves_made = {(0, 0)}, mines = {(0, 1)}, safes = {(0, 0)},
       knowledge = []\<rparr> \<and>
   consistent {}
      \<lparr>height = 1, width = 2, moves_made = {(0, 0)}, mines = {}, safes = {(0, 0)},
       knowledge = [\<lparr>cells = {(0, 1)}, count = 0\<rparr>]\<rparr> \<and>
   update_knowledge
      \<lparr>height = 1, width = 2, moves_made = {(0, 0)}, mines = {}, safes = {(0, 0)},
       knowledge = [\<lparr>cells = {(0, 1)}, count = 0\<rparr>]\<rparr>
     = Some \<lparr>height = 1, width = 2, moves_made = {(0, 0)}, mines = {}, safes = {(0, 0), (0, 1)},
       knowledge = []\<rparr> \<and>
   visited
      \<lparr>height = 1, width = 2, moves_made = {(0, 0)}, mines = {}, safes = {(0, 0)},
       knowledge = [\<lparr>cells = {(0, 1)}, count = 0\<rparr>]\<rparr>
      \<lparr>height = 1, width = 2, moves_made = {(0, 0)}, mines = {}, safes = {(0, 0)},
       knowledge = [\<lparr>cells = {(0, 1)}, count = 0\<rparr>]\<rparr> \<and>
   cells \<lparr>cells = {(0, 1)}, count = 0\<rparr> \<subseteq> safes \<lparr>height = 1, width = 2, moves_made = {(0, 0)}, mines = {}, safes = {(0, 0), (0, 1)},
       knowledge = []\<rparr>"
proof -
  let ?A0 = "\<lparr>height = 1, width = 2, moves_made = {(0, 0)}, mines = {}, safes = {(0, 0)},
       knowledge = [\<lparr>cells = {(0, 1)}, count = 1\<rparr>]\<rparr>"
  let ?A1 = "\<lparr>height = 1, width = 2, moves_made = {(0, 0)}, mines = {(0, 1)}, safes = {(0, 0)},
       knowledge = []\<rparr>"
  let ?B0 = "\<lparr>height = 1, width = 2, moves_made = {(0, 0)}, mines = {}, safes = {(0, 0)},
       knowledge = [\<lparr>cells = {(0, 1)}, count = 0\<rparr>]\<rparr>"
  let ?B1 = "\<lparr>height = 1, width = 2, moves_made = {(0, 0)}, mines = {}, safes = {(0, 0), (0, 1)},
       knowledge = []\<rparr>"
  have ca: "consistent {(0, 1)} ?A0" by (simp add: consistent_def sentence_holds_def)
  have ua: "update_knowledge ?A0 = Some ?A1" by code_simp
  have va: "visited ?A0 ?A0"
    using in_extraction [OF first_round, of 0 ?A0] by simp
  have ma: "\<lparr>cells = {(0, 1)}, count = 1\<rparr> \<in> set (knowledge ?A0)" by simp
  have cb: "consistent {} ?B0" by (simp add: consistent_def sentence_holds_def)
  have ub: "update_knowledge ?B0 = Some ?B1" by code_simp
  have vb: "visited ?B0 ?B0"
    using in_extraction [OF first_round, of 0 ?B0] by simp
  have mb: "\<lparr>cells = {(0, 1)}, count = 0\<rparr> \<in> set (knowledge ?B0)" by simp
  have ra: "cells \<lparr>cells = {(0, 1)}, count = 1\<rparr> \<subseteq> mines ?A1"
    using extraction_complete [of ?A0 ?A1 "\<lparr>cells = {}, count = 0\<rparr>" "{(0, 1)}" ?A0 "\<lparr>cells = {(0, 1)}, count = 1\<rparr>"]
      ca ua va ma by simp
  have rb: "cells \<lparr>cells = {(0, 1)}, count = 0\<rparr> \<subseteq> safes ?B1"
    using extraction_complete [of ?B0 ?B1 "\<lparr>cells = {}, count = 0\<rparr>" "{}" ?B0 "\<lparr>cells = {(0, 1)}, count = 0\<rparr>"]
      cb ub vb mb by simp
  show ?thesis using ca ua va ra cb ub vb rb by blast
qed

text \<open>
  C2 as stated fails when the observations contradict each other.  On a 2 by 2 board,
  after \<open>(0, 0)\<close> and \<open>(0, 1)\<close> were revealed with count 1, revealing \<open>(1, 0)\<close> with
  count 0 stores a sentence with cell \<open>(1, 1)\<close> and count 0 behind two sentences that make
  \<open>(1, 1)\<close> a mine; the first of them is extracted first, and \<open>(1, 1)\<close> never gets into
  \<open>safes\<close>.
\<close>

theorem extraction_incomplete_counterexample:
  "run [AddKnowledge (0, 0) 1, AddKnowledge (0, 1) 1] (init_ai 2 2)
     = Some \<lparr>height = 2, width = 2, moves_made = {(0, 0), (0, 1)}, mines = {}, safes = {(0, 0), (0, 1)},
       knowledge = [\<lparr>cells = {(1, 0), (1, 1)}, count = 1\<rparr>,
         \<lparr>cells = {(1, 0), (1, 1)}, count = 1\<rparr>]\<rparr> \<and>
   record_observation (1, 0) 0
      \<lparr>height = 2, width = 2, moves_made = {(0, 0), (0, 1)}, mines = {}, safes = {(0, 0), (0, 1)},
       knowledge = [\<lparr>cells = {(1, 0), (1, 1)}, count = 1\<rparr>,
         \<lparr>cells = {(1, 0), (1, 1)}, count = 1\<rparr>]\<rparr>
     = \<lparr>height = 2, width = 2, moves_made = {(0, 0), (0, 1), (1, 0)}, mines = {}, safes = {(0, 0), (0, 1), (1, 0)},
       knowledge = [\<lparr>cells = {(1, 1)}, count = 1\<rparr>,
         \<lparr>cells = {(1, 1)}, count = 1\<rparr>,
         \<lparr>cells = {(1, 1)}, count = 0\<rparr>]\<rparr> \<and>
   update_knowledge
      \<lparr>height = 2, width = 2, moves_made = {(0, 0), (0, 1), (1, 0)}, mines = {}, safes = {(0, 0), (0, 1), (1, 0)},
       knowledge = [\<lparr>cells = {(1, 1)}, count = 1\<rparr>,
         \<lparr>cells = {(1, 1)}, count = 1\<rparr>,
         \<lparr>cells = {(1, 1)}, count = 0\<rparr>]\<rparr>
     = Some \<lparr>height = 2, width = 2, moves_made = {(0, 0), (0, 1), (1, 0)}, mines = {(1, 1)}, safes = {(0, 0), (0, 1), (1, 0)},
       knowledge = []\<rparr> \<and>
   \<lparr>cells = {(1, 1)}, count = 0\<rparr> \<in> set (knowledge
      \<lparr>height = 2, width = 2, moves_made = {(0, 0), (0, 1), (1, 0)}, mines = {}, safes = {(0, 0), (0, 1), (1, 0)},
       knowledge = [\<lparr>cells = {(1, 1)}, count = 1\<rparr>,
         \<lparr>cells = {(1, 1)}, count = 1\<rparr>,
         \<lparr>cells = {(1, 1)}, count = 0\<rparr>]\<rparr>) \<and>
   (1, 1) \<notin> safes \<lparr>height = 2, width = 2, moves_made = {(0, 0), (0, 1), (1, 0)}, mines = {(1, 1)}, safes = {(0, 0), (0, 1), (1, 0)},
       knowledge = []\<rparr>"
proof -
  have "run [AddKnowledge (0, 0) 1, AddKnowledge (0, 1) 1] (init_ai 2 2)
     = Some \<lparr>height = 2, width = 2, moves_made = {(0, 0), (0, 1)}, mines = {}, safes = {(0, 0), (0, 1)},
       knowledge = [\<lparr>cells = {(1, 0), (1, 1)}, count = 1\<rparr>,
         \<lparr>cells = {(1, 0), (1, 1)}, count = 1\<rparr>]\<rparr>" by code_simp
  moreover have "record_observation (1, 0) 0
      \<lparr>height = 2, width = 2, moves_made = {(0, 0), (0, 1)}, mines = {}, safes = {(0, 0), (0, 1)},
       knowledge = [\<lparr>cells = {(1, 0), (1, 1)}, count = 1\<rparr>,
         \<lparr>cells = {(1, 0), (1, 1)}, count = 1\<rparr>]\<rparr>
     = \<lparr>height = 2, width = 2, moves_made = {(0, 0), (0, 1), (1, 0)}, mines = {}, safes = {(0, 0), (0, 1), (1, 0)},
       knowledge = [\<lparr>cells = {(1, 1)}, count = 1\<rparr>,
         \<lparr>cells = {(1, 1)}, count = 1\<rparr>,
         \<lparr>cells = {(1, 1)}, count = 0\<rparr>]\<rparr>" by code_simp
  moreover have "update_knowledge
      \<lparr>height = 2, width = 2, moves_made = {(0, 0), (0, 1), (1, 0)}, mines = {}, safes = {(0, 0), (0, 1), (1, 0)},
       knowledge = [\<lparr>cells = {(1, 1)}, count = 1\<rparr>,
         \<lparr>cells = {(1, 1)}, count = 1\<rparr>,
         \<lparr>cells = {(1, 1)}, count = 0\<rparr>]\<rparr>
     = Some \<lparr>height = 2, width = 2, moves_made = {(0, 0), (0, 1), (1, 0)}, mines = {(1, 1)}, safes = {(0, 0), (0, 1), (1, 0)},
       knowledge = []\<rparr>" by code_simp
  ultimately show ?thesis by simp
qed

section \<open>Invariants at every visited point\<close>

lemma run_consistent:
  assumes "\<forall>opn \<in> set ops. truthful M h w opn" "run ops (init_ai h w) = Some st"
  shows "consistent M st \<and> hygienic st \<and> height st = h \<and> width st = w"
  using run_invariant [OF _ _ _ _ assms] init_invariant [of M h w]
  by (simp add: init_ai_def)

text \<open>
  C6.  In every state reached from a fresh instance by operations that are truthful for one
  mine assignment, and in every state visited by the fixpoint procedure of a further
  truthful \<open>add_knowledge\<close>, every sentence in \<open>knowledge\<close> has a count between 0 and the
  number of its cells.
\<close>

theorem sentence_count_invariant:
  assumes "\<forall>opn \<in> set ops. truthful M h w opn"
    and "run ops (init_ai h w) = Some st"
  shows "(s \<in> set (knowledge st) \<longrightarrow> 0 \<le> count s \<and> count s \<le> int (card (cells s))) \<and>
         (truthful M h w (AddKnowledge c n) \<and> visited (record_observation c n st) q \<and>
          s \<in> set (knowledge q) \<longrightarrow> 0 \<le> count s \<and> count s \<le> int (card (cells s)))"
proof -
  have inv: "consistent M st \<and> hygienic st \<and> height st = h \<and> width st = w"
    using assms by (rule run_consistent)
  have bounds: "0 \<le> count s \<and> count s \<le> int (card (cells s))"
    if "consistent M p" "s \<in> set (knowledge p)" for p
  proof -
    have "sentence_holds M s" "finite (cells s)" using that by (auto simp: consistent_def)
    then show ?thesis by (rule holds_count_bounds)
  qed
  have "consistent M q"
    if "truthful M h w (AddKnowledge c n)" "visited (record_observation c n st) q"
  proof -
    have "consistent M (record_observation c n st)"
      using that(1) inv by (intro consistent_record_observation) auto
    then show ?thesis using that(2) visited_consistent by blast
  qed
  then show ?thesis using bounds inv by blast
qed

theorem sentence_count_invariant_witness:
  "truthful {(1, 1)} 2 2 (AddKnowledge (0, 0) 1) \<and>
   run [AddKnowledge (0, 0) 1] (init_ai 2 2)
     = Some \<lparr>height = 2, width = 2, moves_made = {(0, 0)}, mines = {}, safes = {(0, 0)},
             knowledge = [\<lparr>cells = {(0, 1), (1, 0), (1, 1)}, count = 1\<rparr>]\<rparr> \<and>
   0 \<le> count \<lparr>cells = {(0, 1), (1, 0), (1, 1)}, count = 1\<rparr> \<and>
   count \<lparr>cells = {(0, 1), (1, 0), (1, 1)}, count = 1\<rparr>
     \<le> int (card (cells \<lparr>cells = {(0, 1), (1, 0), (1, 1)}, count = 1\<rparr>)) \<and>
   truthful {(1, 1)} 2 2 (AddKnowledge (0, 1) 1) \<and>
   visited
     (record_observation (0, 1) 1
        \<lparr>height = 2, width = 2, moves_made = {(0, 0)}, mines = {}, safes = {(0, 0)},
         knowledge = [\<lparr>cells = {(0, 1), (1, 0), (1, 1)}, count = 1\<rparr>]\<rparr>)
     \<lparr>height = 2, width = 2, moves_made = {(0, 0), (0, 1)}, mines = {}, safes = {(0, 0), (0, 1)},
       knowledge = [\<lparr>cells = {(1, 0), (1, 1)}, count = 1\<rparr>,
                    \<lparr>cells = {(1, 0), (1, 1)}, count = 1\<rparr>]\<rparr> \<and>
   0 \<le> count \<lparr>cells = {(1, 0), (1, 1)}, count = 1\<rparr> \<and>
   count \<lparr>cells = {(1, 0), (1, 1)}, count = 1\<rparr>
     \<le> int (card (cells \<lparr>cells = {(1, 0), (1, 1)}, count = 1\<rparr>))"
proof -
  let ?st = "\<lparr>height = 2, width = 2, moves_made = {(0, 0)}, mines = {}, safes = {(0, 0)},
             knowledge = [\<lparr>cells = {(0, 1), (1, 0), (1, 1)}, count = 1\<rparr>]\<rparr>"
  let ?q = "\<lparr>height = 2, width = 2, moves_made = {(0, 0), (0, 1)}, mines = {}, safes = {(0, 0), (0, 1)},
       knowledge = [\<lparr>cells = {(1, 0), (1, 1)}, count = 1\<rparr>,
                    \<lparr>cells = {(1, 0), (1, 1)}, count = 1\<rparr>]\<rparr>"
  have h1: "\<forall>opn \<in> set [AddKnowledge (0, 0) 1]. truthful {(1, 1)} 2 2 opn" by code_simp
  have h2: "run [AddKnowledge (0, 0) 1] (init_ai 2 2) = Some ?st" by code_simp
  have h3: "\<lparr>cells = {(0, 1), (1, 0), (1, 1)}, count = 1\<rparr> \<in> set (knowledge ?st)" by simp
  have h4: "truthful {(1, 1)} 2 2 (AddKnowledge (0, 1) 1)" by code_simp
  have o: "record_observation (0, 1) 1 ?st = ?q" by code_simp
  have v: "visited (record_observation (0, 1) 1 ?st) ?q"
    using in_extraction [OF first_round, of 0 ?q] unfolding o by simp
  have h5: "\<lparr>cells = {(1, 0), (1, 1)}, count = 1\<rparr> \<in> set (knowledge ?q)" by simp
  note t1 = sentence_count_invariant [OF h1 h2, of "\<lparr>cells = {(0, 1), (1, 0), (1, 1)}, count = 1\<rparr>"
      "(0, 1)" 1 ?q]
  note t2 = sentence_count_invariant [OF h1 h2, of "\<lparr>cells = {(1, 0), (1, 1)}, count = 1\<rparr>"
      "(0, 1)" 1 ?q]
  have a: "0 \<le> count \<lparr>cells = {(0, 1), (1, 0), (1, 1)}, count = 1\<rparr> \<and>
   count \<lparr>cells = {(0, 1), (1, 0), (1, 1)}, count = 1\<rparr>
     \<le> int (card (cells \<lparr>cells = {(0, 1), (1, 0), (1, 1)}, count = 1\<rparr>))"
    using t1 h3 by blast
  have b: "0 \<le> count \<lparr>cells = {(1, 0), (1, 1)}, count = 1\<rparr> \<and>
   count \<lparr>cells = {(1, 0), (1, 1)}, count = 1\<rparr>
     \<le> int (card (cells \<lparr>cells = {(1, 0), (1, 1)}, count = 1\<rparr>))"
    using t2 h4 v h5 by blast
  show ?thesis using h1 h2 h4 v a b by simp
qed

text \<open>
  C7 (amended).  In every state reached from a fresh instance by operations that are truthful
  for one mine assignment (\<open>add_knowledge\<close> on a cell that is not a mine with the true
  count of mines around it, \<open>mark_mine\<close> on mines, \<open>mark_safe\<close> on other cells, and the two
  move queries), and in every state visited by the fixpoint procedure of a further truthful
  \<open>add_knowledge\<close>, no cell is in both \<open>mines\<close> and \<open>safes\<close>.
\<close>

theorem mines_safes_disjoint:
  assumes "\<forall>opn \<in> set ops. truthful M h w opn"
    and "run ops (init_ai h w) = Some st"
  shows "mines st \<inter> safes st = {} \<and>
         (truthful M h w (AddKnowledge c n) \<and> visited (record_observation c n st) q
            \<longrightarrow> mines q \<inter> safes q = {})"
proof -
  have inv: "consistent M st \<and> hygienic st \<and> height st = h \<and> width st = w"
    using assms by (rule run_consistent)
  have disj: "mines p \<inter> safes p = {}" if "consistent M p" for p
    using that by (auto simp: consistent_def)
  have "consistent M q"
    if "truthful M h w (AddKnowledge c n)" "visited (record_observation c n st) q"
  proof -
    have "consistent M (record_observation c n st)"
      using that(1) inv by (intro consistent_record_observation) auto
    then show ?thesis using that(2) visited_consistent by blast
  qed
  then show ?thesis using disj inv by blast
qed

theorem mines_safes_disjoint_witness:
  "truthful {(0, 1)} 2 2 (AddKnowledge (0, 0) 1) \<and>
   truthful {(0, 1)} 2 2 (MarkSafe (1, 0)) \<and>
   run [AddKnowledge (0, 0) 1, MarkSafe (1, 0)] (init_ai 2 2)
     = Some \<lparr>height = 2, width = 2, moves_made = {(0, 0)}, mines = {},
             safes = {(0, 0), (1, 0)},
             knowledge = [\<lparr>cells = {(0, 1), (1, 1)}, count = 1\<rparr>]\<rparr> \<and>
   mines \<lparr>height = 2, width = 2, moves_made = {(0, 0)}, mines = {},
             safes = {(0, 0), (1, 0)},
             knowledge = [\<lparr>cells = {(0, 1), (1, 1)}, count = 1\<rparr>]\<rparr> \<inter>
   safes \<lparr>height = 2, width = 2, moves_made = {(0, 0)}, mines = {},
             safes = {(0, 0), (1, 0)},
             knowledge = [\<lparr>cells = {(0, 1), (1, 1)}, count = 1\<rparr>]\<rparr> = {}"
proof -
  have h1: "\<forall>opn \<in> set [AddKnowledge (0, 0) 1, MarkSafe (1, 0)]. truthful {(0, 1)} 2 2 opn"
    by code_simp
  have h2: "run [AddKnowledge (0, 0) 1, MarkSafe (1, 0)] (init_ai 2 2)
     = Some \<lparr>height = 2, width = 2, moves_made = {(0, 0)}, mines = {},
             safes = {(0, 0), (1, 0)},
             knowledge = [\<lparr>cells = {(0, 1), (1, 1)}, count = 1\<rparr>]\<rparr>"
    by code_simp
  show ?thesis using mines_safes_disjoint [OF h1 h2] h1 h2 by simp
qed

text \<open>
  C7 as stated fails: the class checks nothing.  Revealing \<open>(0, 0)\<close> with count 1 on a
  1 by 2 board makes \<open>(0, 1)\<close> a known mine, and revealing \<open>(0, 1)\<close> afterwards marks it
  safe as well; so do \<open>mark_mine\<close> and \<open>mark_safe\<close> called on the same cell.
\<close>

theorem mines_safes_overlap_counterexample:
  "run [AddKnowledge (0, 0) 1, AddKnowledge (0, 1) 0] (init_ai 1 2)
     = Some \<lparr>height = 1, width = 2, moves_made = {(0, 0), (0, 1)}, mines = {(0, 1)},
             safes = {(0, 0), (0, 1)}, knowledge = []\<rparr> \<and>
   (0, 1) \<in> mines \<lparr>height = 1, width = 2, moves_made = {(0, 0), (0, 1)}, mines = {(0, 1)},
             safes = {(0, 0), (0, 1)}, knowledge = []\<rparr> \<inter>
             safes \<lparr>height = 1, width = 2, moves_made = {(0, 0), (0, 1)}, mines = {(0, 1)},
             safes = {(0, 0), (0, 1)}, knowledge = []\<rparr> \<and>
   run [MarkMine (0, 0), MarkSafe (0, 0)] (init_ai 8 8)
     = Some \<lparr>height = 8, width = 8, moves_made = {}, mines = {(0, 0)},
             safes = {(0, 0)}, knowledge = []\<rparr>"
proof -
  have "run [AddKnowledge (0, 0) 1, AddKnowledge (0, 1) 0] (init_ai 1 2)
     = Some \<lparr>height = 1, width = 2, moves_made = {(0, 0), (0, 1)}, mines = {(0, 1)},
             safes = {(0, 0), (0, 1)}, knowledge = []\<rparr>"
    by code_simp
  moreover have "run [MarkMine (0, 0), MarkSafe (0, 0)] (init_ai 8 8)
     = Some \<lparr>height = 8, width = 8, moves_made = {}, mines = {(0, 0)},
             safes = {(0, 0)}, knowledge = []\<rparr>"
    by code_simp
  ultimately show ?thesis by simp
qed

section \<open>Order independence\<close>

lemma below_trans:
  assumes "below f q" "below q p"
  shows "below f p"
proof -
  have kq: "known q \<subseteq> known f" using assms(1) by (auto simp: below_def known_def)
  have "covered f (knowledge p)"
    unfolding covered_def
  proof
    fix s assume s: "s \<in> set (knowledge p)"
    from assms(2) s have "cells s \<subseteq> known q \<or> (\<exists>t \<in> set (knowledge q). cells t = cells s - known q)"
      by (simp add: below_def covered_def)
    then show "cells s \<subseteq> known f \<or> (\<exists>t \<in> set (knowledge f). cells t = cells s - known f)"
    proof
      assume "cells s \<subseteq> known q"
      then show ?thesis using kq by blast
    next
      assume "\<exists>t \<in> set (knowledge q). cells t = cells s - known q"
      then obtain t where t: "t \<in> set (knowledge q)" "cells t = cells s - known q" by blast
      from assms(1) t(1)
      have "cells t \<subseteq> known f \<or> (\<exists>u \<in> set (knowledge f). cells u = cells t - known f)"
        by (simp add: below_def covered_def)
      then show ?thesis
      proof
        assume "cells t \<subseteq> known f"
        then have "cells s \<subseteq> known f" using t(2) kq by blast
        then show ?thesis by simp
      next
        assume "\<exists>u \<in> set (knowledge f). cells u = cells t - known f"
        then obtain u where u: "u \<in> set (knowledge f)" "cells u = cells t - known f" by blast
        have "cells t - known f = cells s - known f" using t(2) kq by blast
        then show ?thesis using u by auto
      qed
    qed
  qed
  then show ?thesis using assms by (auto simp: below_def)
qed

text \<open>The subsumption pass keeps a list covered by a settled state.\<close>

lemma covered_subsume_pair:
  assumes "settled f" "covered f (fst z)" "a \<in> set (fst z)" "b \<in> set (fst z)"
  shows "covered f (fst (subsume_pair a b z))"
  using subsume_pair_cases [of a b z]
proof
  assume "subsume_pair a b z = z"
  then show ?thesis using assms(2) by simp
next
  assume app: "a \<noteq> b \<and> cells a \<subseteq> cells b \<and> subsume_candidate a b \<notin> set (fst z) \<and>
    cells (subsume_candidate a b) \<noteq> {} \<and> subsume_pair a b z = (fst z @ [subsume_candidate a b], True)"
  let ?c = "subsume_candidate a b"
  have cc: "cells ?c = cells b - cells a" by (simp add: subsume_candidate_def)
  have ab: "cells a \<subseteq> cells b" using app by simp
  have "cells ?c \<subseteq> known f \<or> (\<exists>t \<in> set (knowledge f). cells t = cells ?c - known f)"
  proof (cases "cells b \<subseteq> known f")
    case True
    then show ?thesis using cc by blast
  next
    case False
    then obtain tb where tb: "tb \<in> set (knowledge f)" "cells tb = cells b - known f"
      using assms(2,4) unfolding covered_def by blast
    show ?thesis
    proof (cases "cells a \<subseteq> known f")
      case True
      then have "cells ?c - known f = cells b - known f" using cc by blast
      then show ?thesis using tb by auto
    next
      case na: False
      then obtain ta where ta: "ta \<in> set (knowledge f)" "cells ta = cells a - known f"
        using assms(2,3) unfolding covered_def by blast
      have sub: "cells ta \<subseteq> cells tb" using ta(2) tb(2) ab by blast
      have diff: "cells tb - cells ta = cells ?c - known f" using ta(2) tb(2) cc by blast
      show ?thesis
      proof (cases "cells tb - cells ta = {}")
        case True
        then have "cells ?c \<subseteq> known f" using diff by blast
        then show ?thesis by simp
      next
        case ne: False
        then have "ta \<noteq> tb" by auto
        moreover have "cells (subsume_candidate ta tb) \<noteq> {}" using ne by (simp add: subsume_candidate_def)
        ultimately have "subsume_candidate ta tb \<in> set (knowledge f)"
          using assms(1) ta(1) tb(1) sub unfolding settled_def by blast
        moreover have "cells (subsume_candidate ta tb) = cells ?c - known f"
          using diff by (simp add: subsume_candidate_def)
        ultimately show ?thesis by blast
      qed
    qed
  qed
  then show ?thesis using assms(2) app unfolding covered_def by auto
qed

lemma covered_subsume_outer:
  assumes "settled f" "covered f (fst z)" "subsume_outer i z = Some y"
  shows "covered f (fst y)"
  by (rule subsume_outer_pairs_rule [OF assms(3), where Q = "\<lambda>z. covered f (fst z)"])
     (auto simp: assms(1,2) covered_subsume_pair)

lemma settled_not_resolvable:
  assumes "consistent M f" "settled f" "t \<in> set (knowledge f)"
  shows "\<not> cells t \<subseteq> M" "cells t \<inter> M \<noteq> {}"
proof -
  have h: "count t = int (card (cells t \<inter> M))" "finite (cells t)"
    using assms(1,3) by (auto simp: consistent_def sentence_holds_def)
  have k: "known_safes t = {}" "known_mines t = {}" "cells t \<noteq> {}"
    using assms(2,3) by (auto simp: settled_def)
  show "\<not> cells t \<subseteq> M"
  proof
    assume "cells t \<subseteq> M"
    then have "cells t \<inter> M = cells t" by auto
    then have "count t = int (card (cells t))" using h(1) by simp
    then show False using k(2,3) by (simp add: known_mines_def)
  qed
  show "cells t \<inter> M \<noteq> {}"
  proof
    assume "cells t \<inter> M = {}"
    then have "count t = 0" using h(1) by simp
    then show False using k(1,3) by (simp add: known_safes_def)
  qed
qed

lemma below_resolved_cells:
  assumes "consistent M f" "settled f" "covered f kn" "t \<in> set kn"
    "cells t \<subseteq> M \<or> cells t \<inter> M = {}"
  shows "cells t \<subseteq> known f"
proof (rule ccontr)
  assume "\<not> cells t \<subseteq> known f"
  then obtain u where u: "u \<in> set (knowledge f)" "cells u = cells t - known f"
    using assms(3,4) unfolding covered_def by blast
  have "cells u \<subseteq> M \<or> cells u \<inter> M = {}" using assms(5) u(2) by blast
  then show False using settled_not_resolvable [OF assms(1,2) u(1)] by blast
qed

lemma covered_remove:
  assumes "covered f kn" "S \<subseteq> known f" "\<forall>s \<in> set kn. cells (g s) = cells s - S"
  shows "covered f (map g kn)"
  unfolding covered_def
proof
  fix s' assume "s' \<in> set (map g kn)"
  then obtain s where s: "s \<in> set kn" "s' = g s" by auto
  have c: "cells s' = cells s - S" using s assms(3) by simp
  have e: "cells s' - known f = cells s - known f" using c assms(2) by blast
  from assms(1) s(1)
  have "cells s \<subseteq> known f \<or> (\<exists>t \<in> set (knowledge f). cells t = cells s - known f)"
    by (simp add: covered_def)
  then show "cells s' \<subseteq> known f \<or> (\<exists>t \<in> set (knowledge f). cells t = cells s' - known f)"
  proof
    assume "cells s \<subseteq> known f"
    then have "cells s' \<subseteq> known f" using c by blast
    then show ?thesis by simp
  next
    assume "\<exists>t \<in> set (knowledge f). cells t = cells s - known f"
    then show ?thesis using e by simp
  qed
qed

lemma covered_mark:
  assumes "covered f kn" "S \<subseteq> known f"
  shows "covered f (map (mark_all_safe S) kn)" "covered f (map (mark_all_mine S) kn)"
  by (rule covered_remove [OF assms]; simp add: mark_all_safe_def mark_all_mine_def)+

lemma below_resolve_sentence:
  assumes "consistent M f" "settled f" "consistent M (fst y)" "below f (fst y)"
    "t \<in> set (knowledge (fst y))"
  shows "below f (fst (resolve_sentence t y))"
proof -
  have h: "sentence_holds M t" "finite (cells t)" using assms(3,5) by (auto simp: consistent_def)
  have cov: "covered f (knowledge (fst y))" and m: "mines (fst y) \<subseteq> mines f"
    and s: "safes (fst y) \<subseteq> safes f" using assms(4) by (auto simp: below_def)
  have fM: "mines f \<subseteq> M" "safes f \<inter> M = {}" using assms(1) by (auto simp: consistent_def)
  have "resolve_sentence t y = y \<or>
        (cells t \<noteq> {} \<and> count t = 0 \<and>
         resolve_sentence t y = (resolve_safe (cells t) (fst y), True)) \<or>
        (cells t \<noteq> {} \<and> count t = int (card (cells t)) \<and>
         resolve_sentence t y = (resolve_mine (cells t) (fst y), True))"
    by (simp add: resolve_sentence_def)
  then consider (same) "resolve_sentence t y = y"
    | (safe) "count t = 0" "resolve_sentence t y = (resolve_safe (cells t) (fst y), True)"
    | (mine) "count t = int (card (cells t))"
        "resolve_sentence t y = (resolve_mine (cells t) (fst y), True)"
    by blast
  then show ?thesis
  proof cases
    case same
    then show ?thesis using assms(4) by simp
  next
    case safe
    have tM: "cells t \<inter> M = {}" using holds_count_zero [OF h safe(1)] .
    then have "cells t \<subseteq> known f"
      using below_resolved_cells [OF assms(1,2) cov assms(5)] by blast
    then have ts: "cells t \<subseteq> safes f" "cells t \<subseteq> known f" using tM fM unfolding known_def by blast+
    show ?thesis
      using m s ts(1) covered_mark(1) [OF cov ts(2)] safe(2)
      by (simp add: below_def resolve_safe_def)
  next
    case mine
    have tM: "cells t \<subseteq> M" using holds_count_full [OF h mine(1)] .
    then have "cells t \<subseteq> known f"
      using below_resolved_cells [OF assms(1,2) cov assms(5)] by blast
    then have ts: "cells t \<subseteq> mines f" "cells t \<subseteq> known f" using tM fM unfolding known_def by blast+
    show ?thesis
      using m s ts(1) covered_mark(2) [OF cov ts(2)] mine(2)
      by (simp add: below_def resolve_mine_def)
  qed
qed

lemma below_extract_loop:
  assumes "consistent M f" "settled f" "consistent M (fst x)" "below f (fst x)"
  shows "below f (fst (extract_loop i x))"
proof -
  have "consistent M (fst (extract_loop i x)) \<and> below f (fst (extract_loop i x))"
    by (rule extract_loop_rule [where P = "\<lambda>y. consistent M (fst y) \<and> below f (fst y)"])
       (auto simp: assms consistent_resolve_sentence consistent_finite
          intro: below_resolve_sentence [OF assms(1,2)])
  then show ?thesis by simp
qed

lemma below_inference_round:
  assumes "consistent M f" "settled f" "consistent M p" "below f p" "inference_round p = Some x"
  shows "below f (fst x)"
proof -
  from assms(5) obtain x1 st2 x2 where r:
    "x1 = extract_loop 0 (p, False)" "st2 = drop_empty (fst x1)"
    "subsume_outer 0 (knowledge st2, snd x1) = Some x2"
    "x = (st2\<lparr>knowledge := fst x2\<rparr>, snd x2)"
    by (rule inference_round_parts)
  have b1: "below f (fst x1)"
    unfolding r(1) using assms(1-4) by (intro below_extract_loop [where M = M]) simp_all
  then have b2: "below f st2" unfolding r(2) by (auto simp: below_def covered_def drop_empty_def)
  then have "covered f (fst (knowledge st2, snd x1))" by (simp add: below_def)
  then have "covered f (fst x2)" using r(3) by (rule covered_subsume_outer [OF assms(2)])
  then show ?thesis using b2 r(4) by (simp add: below_def)
qed

lemma below_update_knowledge:
  assumes "consistent M f" "settled f" "consistent M st" "below f st"
    "update_knowledge st = Some fin"
  shows "below f fin"
proof -
  have "consistent M fin \<and> below f fin"
    by (rule update_knowledge_invariant [OF assms(5), where P = "\<lambda>q. consistent M q \<and> below f q"])
       (auto simp: assms intro: inference_round_consistent below_inference_round [OF assms(1,2)])
  then show ?thesis by simp
qed

text \<open>A hygienic state is below the state its own run leads to.\<close>

lemma hygienic_known:
  "hygienic st \<Longrightarrow> s \<in> set (knowledge st) \<Longrightarrow> cells s - known st = cells s"
  unfolding hygienic_def known_def by blast

lemma below_self: "hygienic st \<Longrightarrow> below st st"
  unfolding below_def covered_def using hygienic_known by blast

lemma extract_loop_below:
  assumes "hygienic st"
  shows "below (fst (extract_loop i (st, False))) st"
proof -
  let ?P = "\<lambda>y :: minesweeper_ai \<times> bool. hygienic (fst y) \<and> mines st \<subseteq> mines (fst y) \<and>
     safes st \<subseteq> safes (fst y) \<and>
     (\<forall>s \<in> set (knowledge st). \<exists>t \<in> set (knowledge (fst y)). cells t = cells s - known (fst y))"
  have "?P (extract_loop i (st, False))"
  proof (rule extract_loop_rule [where P = ?P])
    show "?P (st, False)" using assms hygienic_known by auto
  next
    fix y :: "minesweeper_ai \<times> bool" and s
    assume a: "?P y"
    have hy: "hygienic (fst (resolve_sentence s y))" using a by (simp add: hygienic_resolve_sentence)
    have mono: "mines st \<subseteq> mines (fst (resolve_sentence s y))"
      "safes st \<subseteq> safes (fst (resolve_sentence s y))"
      using a resolve_sentence_fields(4,5) [where s = s and x = y] by blast+
    have "\<exists>t \<in> set (knowledge (fst (resolve_sentence s y))).
            cells t = cells u - known (fst (resolve_sentence s y))"
      if u: "u \<in> set (knowledge st)" for u
    proof -
      from a u obtain t where t: "t \<in> set (knowledge (fst y))" "cells t = cells u - known (fst y)"
        by blast
      have "resolve_sentence s y = y \<or>
        resolve_sentence s y = (resolve_safe (cells s) (fst y), True) \<or>
        resolve_sentence s y = (resolve_mine (cells s) (fst y), True)"
        by (simp add: resolve_sentence_def)
      then show ?thesis
      proof (elim disjE)
        assume "resolve_sentence s y = y"
        then show ?thesis using t by auto
      next
        assume e: "resolve_sentence s y = (resolve_safe (cells s) (fst y), True)"
        have "mark_all_safe (cells s) t \<in> set (knowledge (resolve_safe (cells s) (fst y)))"
          using t(1) by (simp add: resolve_safe_def)
        moreover have "cells (mark_all_safe (cells s) t) = cells u - known (resolve_safe (cells s) (fst y))"
          using t(2) by (auto simp: mark_all_safe_def resolve_safe_def known_def)
        ultimately show ?thesis using e by auto
      next
        assume e: "resolve_sentence s y = (resolve_mine (cells s) (fst y), True)"
        have "mark_all_mine (cells s) t \<in> set (knowledge (resolve_mine (cells s) (fst y)))"
          using t(1) by (simp add: resolve_mine_def)
        moreover have "cells (mark_all_mine (cells s) t) = cells u - known (resolve_mine (cells s) (fst y))"
          using t(2) by (auto simp: mark_all_mine_def resolve_mine_def known_def)
        ultimately show ?thesis using e by auto
      qed
    qed
    then show "?P (resolve_sentence s y)" using hy mono by blast
  next
    fix y :: "minesweeper_ai \<times> bool" and s
    assume "?P y" "s \<in> set (knowledge (fst y))"
    then show "finite (cells s)" using hygienic_finite by blast
  qed
  then show ?thesis unfolding below_def covered_def by blast
qed

lemma inference_round_below:
  assumes "hygienic p" "inference_round p = Some x"
  shows "below (fst x) p"
proof -
  from assms(2) obtain x1 st2 x2 where r:
    "x1 = extract_loop 0 (p, False)" "st2 = drop_empty (fst x1)"
    "subsume_outer 0 (knowledge st2, snd x1) = Some x2"
    "x = (st2\<lparr>knowledge := fst x2\<rparr>, snd x2)"
    by (rule inference_round_parts)
  have b1: "below (fst x1) p" unfolding r(1) using assms(1) by (rule extract_loop_below)
  have sub: "set (knowledge st2) \<subseteq> set (fst x2)" using subsume_outer_set_mono [OF r(3)] by simp
  have kn: "known (fst x) = known (fst x1)" using r(2,4) by (simp add: known_def drop_empty_def)
  have "covered (fst x) (knowledge p)"
    unfolding covered_def
  proof
    fix s assume "s \<in> set (knowledge p)"
    then have "cells s \<subseteq> known (fst x1) \<or> (\<exists>t \<in> set (knowledge (fst x1)). cells t = cells s - known (fst x1))"
      using b1 by (simp add: below_def covered_def)
    then show "cells s \<subseteq> known (fst x) \<or> (\<exists>t \<in> set (knowledge (fst x)). cells t = cells s - known (fst x))"
    proof
      assume "cells s \<subseteq> known (fst x1)"
      then show ?thesis using kn by simp
    next
      assume "\<exists>t \<in> set (knowledge (fst x1)). cells t = cells s - known (fst x1)"
      then obtain t where t: "t \<in> set (knowledge (fst x1))" "cells t = cells s - known (fst x1)"
        by blast
      show ?thesis
      proof (cases "cells t = {}")
        case True
        then show ?thesis using t(2) kn by auto
      next
        case False
        then have "t \<in> set (knowledge st2)" using t(1) r(2) by (simp add: drop_empty_def)
        then have "t \<in> set (knowledge (fst x))" using sub r(4) by auto
        then show ?thesis using t(2) kn by auto
      qed
    qed
  qed
  moreover have "mines p \<subseteq> mines (fst x)" "safes p \<subseteq> safes (fst x)"
    using b1 r(2,4) by (auto simp: below_def drop_empty_def)
  ultimately show ?thesis by (simp add: below_def)
qed

lemma update_knowledge_below:
  assumes "update_knowledge st = Some fin" "hygienic st"
  shows "below fin st"
proof -
  define Q where "Q = (\<lambda>st fin. hygienic st \<longrightarrow> below fin st)"
  have "Q st fin"
  proof (rule update_knowledge.raw_induct [where P = Q])
    fix g st fin
    assume IH: "\<And>st fin. g st = Some fin \<Longrightarrow> Q st fin"
      and eq: "(case inference_round st of None \<Rightarrow> None
                | Some x \<Rightarrow> if snd x then g (fst x) else Some (fst x)) = Some fin"
    from eq obtain x where x: "inference_round st = Some x"
      "(if snd x then g (fst x) else Some (fst x)) = Some fin"
      by (auto split: option.splits)
    show "Q st fin"
      unfolding Q_def
    proof
      assume hy: "hygienic st"
      have b: "below (fst x) st" using hy x(1) by (rule inference_round_below)
      show "below fin st"
      proof (cases "snd x")
        case True
        then have "Q (fst x) fin" using IH x(2) by simp
        moreover have "hygienic (fst x)" using hy x(1) by (rule inference_round_hygienic)
        ultimately have "below fin (fst x)" unfolding Q_def by simp
        then show ?thesis using b by (rule below_trans)
      next
        case False
        then show ?thesis using b x(2) by simp
      qed
    qed
  next
    show "update_knowledge st = Some fin" by fact
  qed
  then show ?thesis using assms(2) unfolding Q_def by simp
qed

lemma below_same_sentences:
  assumes "below f st" "set kn = set (knowledge st)"
  shows "below f (st\<lparr>knowledge := kn\<rparr>)"
  using assms by (simp add: below_def covered_def)

lemma settled_below_subset:
  assumes "consistent M f1" "hygienic f1" "settled f1" "consistent M f2" "below f2 f1"
    "known f1 = known f2"
  shows "set (knowledge f1) \<subseteq> set (knowledge f2)"
proof
  fix s assume s: "s \<in> set (knowledge f1)"
  have ne: "cells s \<noteq> {}" using assms(3) s by (simp add: settled_def)
  have dis: "cells s - known f1 = cells s" using assms(2) s by (rule hygienic_known)
  then have "\<not> cells s \<subseteq> known f2" using ne assms(6) by auto
  then obtain t where t: "t \<in> set (knowledge f2)" "cells t = cells s - known f2"
    using assms(5) s unfolding below_def covered_def by blast
  have ct: "cells t = cells s" using t(2) dis assms(6) by simp
  have "count s = int (card (cells s \<inter> M))" "count t = int (card (cells t \<inter> M))"
    using assms(1,4) s t(1) by (auto simp: consistent_def sentence_holds_def)
  then have "t = s" using ct by simp
  then show "s \<in> set (knowledge f2)" using t(1) by simp
qed

text \<open>
  C8 (amended).  From a state that is consistent with a mine assignment and hygienic, and
  from the same state with its knowledge list in another order (any list with the same
  sentences), \<open>update_knowledge\<close> returns with the same \<open>mines\<close>, the same \<open>safes\<close> and the
  same set of sentences in \<open>knowledge\<close>; how often a sentence occurs in the list may
  differ.  The loops that mark the cells of a set give the same state for every order of
  the cells.
\<close>

theorem fixpoint_confluent:
  assumes "consistent M st" "hygienic st" "set kn = set (knowledge st)"
  shows "(\<exists>f1 f2. update_knowledge st = Some f1 \<and>
            update_knowledge (st\<lparr>knowledge := kn\<rparr>) = Some f2 \<and>
            mines f1 = mines f2 \<and> safes f1 = safes f2 \<and>
            set (knowledge f1) = set (knowledge f2)) \<and>
         (set xs = S \<longrightarrow>
            fold ai_mark_safe xs st = fold ai_mark_safe (set_iter S) st) \<and>
         (distinct xs \<and> set xs = S \<longrightarrow>
            fold ai_mark_mine xs st = fold ai_mark_mine (set_iter S) st)"
proof (intro conjI impI)
  let ?st2 = "st\<lparr>knowledge := kn\<rparr>"
  have c2: "consistent M ?st2" using assms(1,3) by (simp add: consistent_def)
  have h2: "hygienic ?st2" using assms(2,3) by (simp add: hygienic_def)
  obtain f1 where f1: "update_knowledge st = Some f1"
    using update_knowledge_terminates [OF assms(1,2)] by blast
  obtain f2 where f2: "update_knowledge ?st2 = Some f2"
    using update_knowledge_terminates [OF c2 h2] by blast
  have p1: "consistent M f1" "hygienic f1" "settled f1"
    using f1 assms(1,2) update_knowledge_consistent update_knowledge_hygienic
      update_knowledge_settled by blast+
  have p2: "consistent M f2" "hygienic f2" "settled f2"
    using f2 c2 h2 update_knowledge_consistent update_knowledge_hygienic
      update_knowledge_settled by blast+
  have "below f1 st" using f1 assms(2) by (rule update_knowledge_below)
  then have "below f1 ?st2" using assms(3) by (rule below_same_sentences)
  then have b12: "below f1 f2" using f2 by (rule below_update_knowledge [OF p1(1,3) c2])
  have "below f2 ?st2" using f2 h2 by (rule update_knowledge_below)
  moreover have "set (knowledge st) = set (knowledge ?st2)" using assms(3) by simp
  ultimately have "below f2 (?st2\<lparr>knowledge := knowledge st\<rparr>)"
    by (rule below_same_sentences)
  then have "below f2 st" by simp
  then have b21: "below f2 f1" using f1 by (rule below_update_knowledge [OF p2(1,3) assms(1)])
  have m: "mines f1 = mines f2" and s: "safes f1 = safes f2"
    using b12 b21 by (auto simp: below_def)
  then have k: "known f1 = known f2" by (simp add: known_def)
  have "set (knowledge f1) \<subseteq> set (knowledge f2)"
    using p1 p2(1) b21 k by (rule settled_below_subset)
  moreover have "set (knowledge f2) \<subseteq> set (knowledge f1)"
    using p2 p1(1) b12 k [symmetric] by (rule settled_below_subset)
  ultimately show "\<exists>f1 f2. update_knowledge st = Some f1 \<and>
            update_knowledge ?st2 = Some f2 \<and>
            mines f1 = mines f2 \<and> safes f1 = safes f2 \<and>
            set (knowledge f1) = set (knowledge f2)"
    using f1 f2 m s by blast
next
  assume "set xs = S"
  then have "finite S" by auto
  then show "fold ai_mark_safe xs st = fold ai_mark_safe (set_iter S) st"
    using \<open>set xs = S\<close> by (simp add: fold_ai_mark_safe set_iter_finite)
next
  assume a: "distinct xs \<and> set xs = S"
  then have "finite S" by auto
  moreover have "\<forall>s \<in> set (knowledge st). finite (cells s)"
    using assms(1) by (simp add: consistent_def)
  ultimately show "fold ai_mark_mine xs st = fold ai_mark_mine (set_iter S) st"
    using a by (simp add: fold_ai_mark_mine set_iter_finite)
qed

theorem fixpoint_confluent_witness:
  "consistent {(0, 0), (1, 0)}
      \<lparr>height = 2, width = 2, moves_made = {}, mines = {}, safes = {},
       knowledge = [\<lparr>cells = {(0, 0)}, count = 1\<rparr>,
         \<lparr>cells = {(0, 0), (0, 1)}, count = 1\<rparr>,
         \<lparr>cells = {(0, 1), (1, 0), (1, 1)}, count = 1\<rparr>]\<rparr> \<and>
   hygienic
      \<lparr>height = 2, width = 2, moves_made = {}, mines = {}, safes = {},
       knowledge = [\<lparr>cells = {(0, 0)}, count = 1\<rparr>,
         \<lparr>cells = {(0, 0), (0, 1)}, count = 1\<rparr>,
         \<lparr>cells = {(0, 1), (1, 0), (1, 1)}, count = 1\<rparr>]\<rparr> \<and>
   update_knowledge
      \<lparr>height = 2, width = 2, moves_made = {}, mines = {}, safes = {},
       knowledge = [\<lparr>cells = {(0, 0)}, count = 1\<rparr>,
         \<lparr>cells = {(0, 0), (0, 1)}, count = 1\<rparr>,
         \<lparr>cells = {(0, 1), (1, 0), (1, 1)}, count = 1\<rparr>]\<rparr>
     = Some \<lparr>height = 2, width = 2, moves_made = {}, mines = {(0, 0)}, safes = {(0, 1)},
       knowledge = [\<lparr>cells = {(1, 0), (1, 1)}, count = 1\<rparr>]\<rparr> \<and>
   update_knowledge
      \<lparr>height = 2, width = 2, moves_made = {}, mines = {}, safes = {},
       knowledge = [\<lparr>cells = {(0, 0), (0, 1)}, count = 1\<rparr>,
         \<lparr>cells = {(0, 0)}, count = 1\<rparr>,
         \<lparr>cells = {(0, 1), (1, 0), (1, 1)}, count = 1\<rparr>]\<rparr>
     = Some \<lparr>height = 2, width = 2, moves_made = {}, mines = {(0, 0)}, safes = {(0, 1)},
       knowledge = [\<lparr>cells = {(1, 0), (1, 1)}, count = 1\<rparr>,
         \<lparr>cells = {(1, 0), (1, 1)}, count = 1\<rparr>]\<rparr> \<and>
   mines \<lparr>height = 2, width = 2, moves_made = {}, mines = {(0, 0)}, safes = {(0, 1)},
       knowledge = [\<lparr>cells = {(1, 0), (1, 1)}, count = 1\<rparr>]\<rparr> =
   mines \<lparr>height = 2, width = 2, moves_made = {}, mines = {(0, 0)}, safes = {(0, 1)},
       knowledge = [\<lparr>cells = {(1, 0), (1, 1)}, count = 1\<rparr>,
         \<lparr>cells = {(1, 0), (1, 1)}, count = 1\<rparr>]\<rparr> \<and>
   safes \<lparr>height = 2, width = 2, moves_made = {}, mines = {(0, 0)}, safes = {(0, 1)},
       knowledge = [\<lparr>cells = {(1, 0), (1, 1)}, count = 1\<rparr>]\<rparr> =
   safes \<lparr>height = 2, width = 2, moves_made = {}, mines = {(0, 0)}, safes = {(0, 1)},
       knowledge = [\<lparr>cells = {(1, 0), (1, 1)}, count = 1\<rparr>,
         \<lparr>cells = {(1, 0), (1, 1)}, count = 1\<rparr>]\<rparr> \<and>
   set (knowledge \<lparr>height = 2, width = 2, moves_made = {}, mines = {(0, 0)}, safes = {(0, 1)},
       knowledge = [\<lparr>cells = {(1, 0), (1, 1)}, count = 1\<rparr>]\<rparr>) =
   set (knowledge \<lparr>height = 2, width = 2, moves_made = {}, mines = {(0, 0)}, safes = {(0, 1)},
       knowledge = [\<lparr>cells = {(1, 0), (1, 1)}, count = 1\<rparr>,
         \<lparr>cells = {(1, 0), (1, 1)}, count = 1\<rparr>]\<rparr>)"
proof -
  let ?P1 = "\<lparr>height = 2, width = 2, moves_made = {}, mines = {}, safes = {},
       knowledge = [\<lparr>cells = {(0, 0)}, count = 1\<rparr>,
         \<lparr>cells = {(0, 0), (0, 1)}, count = 1\<rparr>,
         \<lparr>cells = {(0, 1), (1, 0), (1, 1)}, count = 1\<rparr>]\<rparr>"
  let ?kn = "[\<lparr>cells = {(0, 0), (0, 1)}, count = 1\<rparr>,
         \<lparr>cells = {(0, 0)}, count = 1\<rparr>,
         \<lparr>cells = {(0, 1), (1, 0), (1, 1)}, count = 1\<rparr>]"
  have "sentence_holds {(0, 0), (1, 0)} \<lparr>cells = {(0, 0)}, count = 1\<rparr>"
    "sentence_holds {(0, 0), (1, 0)} \<lparr>cells = {(0, 0), (0, 1)}, count = 1\<rparr>"
    "sentence_holds {(0, 0), (1, 0)} \<lparr>cells = {(0, 1), (1, 0), (1, 1)}, count = 1\<rparr>"
    by code_simp+
  then have c: "consistent {(0, 0), (1, 0)} ?P1" by (simp add: consistent_def)
  have h: "hygienic ?P1" by (simp add: hygienic_def board_def)
  have k: "set ?kn = set (knowledge ?P1)" by auto
  have u1: "update_knowledge ?P1 = Some \<lparr>height = 2, width = 2, moves_made = {}, mines = {(0, 0)}, safes = {(0, 1)},
       knowledge = [\<lparr>cells = {(1, 0), (1, 1)}, count = 1\<rparr>]\<rparr>" by code_simp
  have u2: "update_knowledge (?P1\<lparr>knowledge := ?kn\<rparr>) = Some \<lparr>height = 2, width = 2, moves_made = {}, mines = {(0, 0)}, safes = {(0, 1)},
       knowledge = [\<lparr>cells = {(1, 0), (1, 1)}, count = 1\<rparr>,
         \<lparr>cells = {(1, 0), (1, 1)}, count = 1\<rparr>]\<rparr>" by code_simp
  have u2': "update_knowledge
      \<lparr>height = 2, width = 2, moves_made = {}, mines = {}, safes = {},
       knowledge = [\<lparr>cells = {(0, 0), (0, 1)}, count = 1\<rparr>,
         \<lparr>cells = {(0, 0)}, count = 1\<rparr>,
         \<lparr>cells = {(0, 1), (1, 0), (1, 1)}, count = 1\<rparr>]\<rparr>
     = Some \<lparr>height = 2, width = 2, moves_made = {}, mines = {(0, 0)}, safes = {(0, 1)},
       knowledge = [\<lparr>cells = {(1, 0), (1, 1)}, count = 1\<rparr>,
         \<lparr>cells = {(1, 0), (1, 1)}, count = 1\<rparr>]\<rparr>" using u2 by simp
  from conjunct1 [OF fixpoint_confluent [OF c h k, of "[]" "{}"]] obtain f1 f2 where
    f: "update_knowledge ?P1 = Some f1" "update_knowledge (?P1\<lparr>knowledge := ?kn\<rparr>) = Some f2"
      "mines f1 = mines f2" "safes f1 = safes f2" "set (knowledge f1) = set (knowledge f2)"
    by blast
  have "f1 = \<lparr>height = 2, width = 2, moves_made = {}, mines = {(0, 0)}, safes = {(0, 1)},
       knowledge = [\<lparr>cells = {(1, 0), (1, 1)}, count = 1\<rparr>]\<rparr>" using f(1) u1 by simp
  moreover have "f2 = \<lparr>height = 2, width = 2, moves_made = {}, mines = {(0, 0)}, safes = {(0, 1)},
       knowledge = [\<lparr>cells = {(1, 0), (1, 1)}, count = 1\<rparr>,
         \<lparr>cells = {(1, 0), (1, 1)}, count = 1\<rparr>]\<rparr>" using f(2) u2 by simp
  ultimately have e: "f1 = \<lparr>height = 2, width = 2, moves_made = {}, mines = {(0, 0)}, safes = {(0, 1)},
       knowledge = [\<lparr>cells = {(1, 0), (1, 1)}, count = 1\<rparr>]\<rparr>" "f2 = \<lparr>height = 2, width = 2, moves_made = {}, mines = {(0, 0)}, safes = {(0, 1)},
       knowledge = [\<lparr>cells = {(1, 0), (1, 1)}, count = 1\<rparr>,
         \<lparr>cells = {(1, 0), (1, 1)}, count = 1\<rparr>]\<rparr>" by simp_all
  have "mines \<lparr>height = 2, width = 2, moves_made = {}, mines = {(0, 0)}, safes = {(0, 1)},
       knowledge = [\<lparr>cells = {(1, 0), (1, 1)}, count = 1\<rparr>]\<rparr> =
   mines \<lparr>height = 2, width = 2, moves_made = {}, mines = {(0, 0)}, safes = {(0, 1)},
       knowledge = [\<lparr>cells = {(1, 0), (1, 1)}, count = 1\<rparr>,
         \<lparr>cells = {(1, 0), (1, 1)}, count = 1\<rparr>]\<rparr> \<and>
   safes \<lparr>height = 2, width = 2, moves_made = {}, mines = {(0, 0)}, safes = {(0, 1)},
       knowledge = [\<lparr>cells = {(1, 0), (1, 1)}, count = 1\<rparr>]\<rparr> =
   safes \<lparr>height = 2, width = 2, moves_made = {}, mines = {(0, 0)}, safes = {(0, 1)},
       knowledge = [\<lparr>cells = {(1, 0), (1, 1)}, count = 1\<rparr>,
         \<lparr>cells = {(1, 0), (1, 1)}, count = 1\<rparr>]\<rparr> \<and>
   set (knowledge \<lparr>height = 2, width = 2, moves_made = {}, mines = {(0, 0)}, safes = {(0, 1)},
       knowledge = [\<lparr>cells = {(1, 0), (1, 1)}, count = 1\<rparr>]\<rparr>) =
   set (knowledge \<lparr>height = 2, width = 2, moves_made = {}, mines = {(0, 0)}, safes = {(0, 1)},
       knowledge = [\<lparr>cells = {(1, 0), (1, 1)}, count = 1\<rparr>,
         \<lparr>cells = {(1, 0), (1, 1)}, count = 1\<rparr>]\<rparr>)" using f(3,4,5) unfolding e by simp
  then show ?thesis using c h u1 u2' by simp
qed

text \<open>
  C8 as stated fails.  The three sentences over \<open>{(0, 0)}\<close>, \<open>{(0, 0), (0, 1)}\<close> and
  \<open>{(0, 1), (1, 0), (1, 1)}\<close> with count 1 each agree with the mines \<open>(0, 0)\<close> and
  \<open>(1, 0)\<close>; in this order the run ends with one sentence in \<open>knowledge\<close>, with the first
  two swapped it ends with two equal ones.  And for the contradicting sentences over
  \<open>{(0, 0)}\<close> with counts 0 and 1 the order decides whether the cell ends up safe or a mine.
\<close>

theorem fixpoint_order_counterexample:
  "update_knowledge
      \<lparr>height = 2, width = 2, moves_made = {}, mines = {}, safes = {},
       knowledge = [\<lparr>cells = {(0, 0)}, count = 1\<rparr>,
         \<lparr>cells = {(0, 0), (0, 1)}, count = 1\<rparr>,
         \<lparr>cells = {(0, 1), (1, 0), (1, 1)}, count = 1\<rparr>]\<rparr>
     = Some \<lparr>height = 2, width = 2, moves_made = {}, mines = {(0, 0)}, safes = {(0, 1)},
       knowledge = [\<lparr>cells = {(1, 0), (1, 1)}, count = 1\<rparr>]\<rparr> \<and>
   update_knowledge
      \<lparr>height = 2, width = 2, moves_made = {}, mines = {}, safes = {},
       knowledge = [\<lparr>cells = {(0, 0), (0, 1)}, count = 1\<rparr>,
         \<lparr>cells = {(0, 0)}, count = 1\<rparr>,
         \<lparr>cells = {(0, 1), (1, 0), (1, 1)}, count = 1\<rparr>]\<rparr>
     = Some \<lparr>height = 2, width = 2, moves_made = {}, mines = {(0, 0)}, safes = {(0, 1)},
       knowledge = [\<lparr>cells = {(1, 0), (1, 1)}, count = 1\<rparr>,
         \<lparr>cells = {(1, 0), (1, 1)}, count = 1\<rparr>]\<rparr> \<and>
   length (knowledge \<lparr>height = 2, width = 2, moves_made = {}, mines = {(0, 0)}, safes = {(0, 1)},
       knowledge = [\<lparr>cells = {(1, 0), (1, 1)}, count = 1\<rparr>]\<rparr>) = 1 \<and>
   length (knowledge \<lparr>height = 2, width = 2, moves_made = {}, mines = {(0, 0)}, safes = {(0, 1)},
       knowledge = [\<lparr>cells = {(1, 0), (1, 1)}, count = 1\<rparr>,
         \<lparr>cells = {(1, 0), (1, 1)}, count = 1\<rparr>]\<rparr>) = 2 \<and>
   update_knowledge
      \<lparr>height = 1, width = 1, moves_made = {}, mines = {}, safes = {},
       knowledge = [\<lparr>cells = {(0, 0)}, count = 0\<rparr>,
         \<lparr>cells = {(0, 0)}, count = 1\<rparr>]\<rparr>
     = Some \<lparr>height = 1, width = 1, moves_made = {}, mines = {}, safes = {(0, 0)},
       knowledge = []\<rparr> \<and>
   update_knowledge
      \<lparr>height = 1, width = 1, moves_made = {}, mines = {}, safes = {},
       knowledge = [\<lparr>cells = {(0, 0)}, count = 1\<rparr>,
         \<lparr>cells = {(0, 0)}, count = 0\<rparr>]\<rparr>
     = Some \<lparr>height = 1, width = 1, moves_made = {}, mines = {(0, 0)}, safes = {},
       knowledge = []\<rparr> \<and>
   safes \<lparr>height = 1, width = 1, moves_made = {}, mines = {}, safes = {(0, 0)},
       knowledge = []\<rparr> = {(0, 0)} \<and>
   safes \<lparr>height = 1, width = 1, moves_made = {}, mines = {(0, 0)}, safes = {},
       knowledge = []\<rparr> = {}"
proof -
  have "update_knowledge
      \<lparr>height = 2, width = 2, moves_made = {}, mines = {}, safes = {},
       knowledge = [\<lparr>cells = {(0, 0)}, count = 1\<rparr>,
         \<lparr>cells = {(0, 0), (0, 1)}, count = 1\<rparr>,
         \<lparr>cells = {(0, 1), (1, 0), (1, 1)}, count = 1\<rparr>]\<rparr>
     = Some \<lparr>height = 2, width = 2, moves_made = {}, mines = {(0, 0)}, safes = {(0, 1)},
       knowledge = [\<lparr>cells = {(1, 0), (1, 1)}, count = 1\<rparr>]\<rparr>" by code_simp
  moreover have "update_knowledge
      \<lparr>height = 2, width = 2, moves_made = {}, mines = {}, safes = {},
       knowledge = [\<lparr>cells = {(0, 0), (0, 1)}, count = 1\<rparr>,
         \<lparr>cells = {(0, 0)}, count = 1\<rparr>,
         \<lparr>cells = {(0, 1), (1, 0), (1, 1)}, count = 1\<rparr>]\<rparr>
     = Some \<lparr>height = 2, width = 2, moves_made = {}, mines = {(0, 0)}, safes = {(0, 1)},
       knowledge = [\<lparr>cells = {(1, 0), (1, 1)}, count = 1\<rparr>,
         \<lparr>cells = {(1, 0), (1, 1)}, count = 1\<rparr>]\<rparr>" by code_simp
  moreover have "update_knowledge
      \<lparr>height = 1, width = 1, moves_made = {}, mines = {}, safes = {},
       knowledge = [\<lparr>cells = {(0, 0)}, count = 0\<rparr>,
         \<lparr>cells = {(0, 0)}, count = 1\<rparr>]\<rparr>
     = Some \<lparr>height = 1, width = 1, moves_made = {}, mines = {}, safes = {(0, 0)},
       knowledge = []\<rparr>" by code_simp
  moreover have "update_knowledge
      \<lparr>height = 1, width = 1, moves_made = {}, mines = {}, safes = {},
       knowledge = [\<lparr>cells = {(0, 0)}, count = 1\<rparr>,
         \<lparr>cells = {(0, 0)}, count = 0\<rparr>]\<rparr>
     = Some \<lparr>height = 1, width = 1, moves_made = {}, mines = {(0, 0)}, safes = {},
       knowledge = []\<rparr>" by code_simp
  ultimately show ?thesis by simp
qed

end
